theory Spec2Isabelle
  imports Complex_Main
begin

section \<open>Data model\<close>

text \<open>
  The kernels of \<^verbatim>\<open>hip_kernels_rsamg_csr.hpp\<close> work on device arrays. An array is a
  list, read with \<open>!\<close> and written with a list update; the index types \<open>I\<close> and
  \<open>J\<close> of the templates are natural numbers (where a kernel keeps a value of the
  pointer type \<open>J\<close> in a variable of the index type \<open>I\<close>, the conversion is a
  parameter of the model), the classification states are the \<open>int\<close>s of the source,
  and the floating-point types (\<open>T\<close>, \<open>float\<close>, \<open>double\<close>) are the reals:
  comparisons and sums are exact, rounding, infinities and NaN are outside the model.

  A CSR matrix groups the kernel arguments \<open>nrow\<close>, \<open>csr_row_ptr\<close>,
  \<open>csr_col_ind\<close> and \<open>csr_val\<close>.
\<close>

record csr =
  nrow :: nat
  csr_row_ptr :: "nat list"
  csr_col_ind :: "nat list"
  csr_val :: "real list"

text \<open>
  The caller's side of the contract: the row pointer has \<open>nrow + 1\<close> monotone entries
  that end at the number of nonzeros, and every column index is a row index.
\<close>

definition csr_wf :: "csr \<Rightarrow> bool" where
  "csr_wf A \<longleftrightarrow>
     length (csr_row_ptr A) = nrow A + 1 \<and>
     list_all (\<lambda>i. csr_row_ptr A ! i \<le> csr_row_ptr A ! (i + 1)) [0..<nrow A] \<and>
     csr_row_ptr A ! nrow A = length (csr_col_ind A) \<and>
     list_all (\<lambda>c. c < nrow A) (csr_col_ind A)"

text \<open>
  A wavefront of \<open>WFSIZE\<close> lanes shares one row: lane \<open>lid\<close> runs
  \<^verbatim>\<open>for(J j = row_begin + lid; j < row_end; j += WFSIZE)\<close>.
\<close>

definition lane_indices :: "nat \<Rightarrow> nat \<Rightarrow> nat \<Rightarrow> nat \<Rightarrow> nat list" where
  "lane_indices WFSIZE lid row_begin row_end =
     filter (\<lambda>j. (j - row_begin) mod WFSIZE = lid) [row_begin..<row_end]"

section \<open>Strength of connection\<close>

text \<open>
  Modelled from the spec: \<open>wf_reduce_max\<close>, \<open>wf_reduce_min\<close> and \<open>wf_reduce_sum\<close> are
  declared in \<^verbatim>\<open>hip_utils.hpp\<close>, which is not part of the source file. They combine
  the values that the lanes of a wavefront hold (one list entry per lane) into their
  maximum, minimum or sum.
\<close>

definition wf_reduce_max :: "real list \<Rightarrow> real" where
  "wf_reduce_max vals = fold max (tl vals) (hd vals)"

definition wf_reduce_min :: "real list \<Rightarrow> real" where
  "wf_reduce_min vals = fold min (tl vals) (hd vals)"

definition wf_reduce_sum :: "nat list \<Rightarrow> nat" where
  "wf_reduce_sum vals = sum_list vals"

text \<open>The arrays that \<^verbatim>\<open>kernel_csr_rs_pmis_strong_influences\<close> writes.\<close>

record strong_state =
  ss_omega :: "real list"
  ss_S :: "bool list"

text \<open>
  First loop of a lane: the sign of the diagonal, kept in the shared \<open>sign[wid]\<close>, and
  the minimum and maximum off-diagonal value that the lane has seen, both starting at 0.
\<close>

definition strong_influences_minmax_step ::
  "csr \<Rightarrow> nat \<Rightarrow> nat \<Rightarrow> bool \<times> real \<times> real \<Rightarrow> bool \<times> real \<times> real" where
  "strong_influences_minmax_step A row j st =
     (case st of (sign, min_a_ik, max_a_ik) \<Rightarrow>
        let col = csr_col_ind A ! j; val = csr_val A ! j in
        if col = row then (val < 0, min_a_ik, max_a_ik)
        else (sign,
              (if min_a_ik < val then min_a_ik else val),
              (if max_a_ik > val then max_a_ik else val)))"

text \<open>
  The lanes of the wavefront one after the other: the shared sign is threaded through
  them, and each lane contributes its own minimum and maximum.
\<close>

definition strong_influences_minmax_lane ::
  "nat \<Rightarrow> csr \<Rightarrow> nat \<Rightarrow> nat \<Rightarrow> bool \<times> (real \<times> real) list \<Rightarrow> bool \<times> (real \<times> real) list" where
  "strong_influences_minmax_lane WFSIZE A row lid st =
     (case st of (sign, mms) \<Rightarrow>
        case fold (strong_influences_minmax_step A row)
               (lane_indices WFSIZE lid (csr_row_ptr A ! row) (csr_row_ptr A ! (row + 1)))
               (sign, 0, 0) of
          (sign', min_a_ik, max_a_ik) \<Rightarrow> (sign', mms @ [(min_a_ik, max_a_ik)]))"

text \<open>
  The threshold \<open>cond\<close> of the row. \<open>sign0\<close> is what the shared \<open>sign[wid]\<close> holds
  when the kernel starts; the source does not initialise it.
\<close>

definition strong_influences_cond :: "nat \<Rightarrow> csr \<Rightarrow> real \<Rightarrow> bool \<Rightarrow> nat \<Rightarrow> real" where
  "strong_influences_cond WFSIZE A eps sign0 row =
     (case fold (strong_influences_minmax_lane WFSIZE A row) [0..<WFSIZE] (sign0, []) of
        (sign, mms) \<Rightarrow>
          let conds = map (\<lambda>(min_a_ik, max_a_ik). if sign then max_a_ik else min_a_ik) mms;
              cond = (if sign then wf_reduce_max conds else wf_reduce_min conds)
          in cond * eps)"

text \<open>Second loop: fill \<open>S\<close> and increment \<open>omega\<close> at the column.\<close>

definition strong_influences_fill_step ::
  "csr \<Rightarrow> nat \<Rightarrow> real \<Rightarrow> nat \<Rightarrow> strong_state \<Rightarrow> strong_state" where
  "strong_influences_fill_step A row cond j st =
     (let col = csr_col_ind A ! j; val = csr_val A ! j in
      if col \<noteq> row \<and> val < cond then
        st\<lparr>ss_S := (ss_S st)[j := True],
           ss_omega := (ss_omega st)[col := ss_omega st ! col + 1]\<rparr>
      else st)"

definition strong_influences_wavefront ::
  "nat \<Rightarrow> csr \<Rightarrow> real \<Rightarrow> bool \<Rightarrow> nat \<Rightarrow> strong_state \<Rightarrow> strong_state" where
  "strong_influences_wavefront WFSIZE A eps sign0 row st =
     (if row \<ge> nrow A then st
      else
        let cond = strong_influences_cond WFSIZE A eps sign0 row in
        fold (\<lambda>lid. fold (strong_influences_fill_step A row cond)
                      (lane_indices WFSIZE lid (csr_row_ptr A ! row) (csr_row_ptr A ! (row + 1))))
          [0..<WFSIZE] st)"

definition kernel_csr_rs_pmis_strong_influences ::
  "nat \<Rightarrow> nat \<Rightarrow> csr \<Rightarrow> real \<Rightarrow> (nat \<Rightarrow> bool) \<Rightarrow> strong_state \<Rightarrow> strong_state" where
  "kernel_csr_rs_pmis_strong_influences WFSIZE grid A eps sign0 st =
     fold (\<lambda>row. strong_influences_wavefront WFSIZE A eps (sign0 row) row) [0..<grid] st"





section \<open>Strength of connection: auxiliary notions\<close>



definition ex_ss :: strong_state where
  "ex_ss = \<lparr>ss_omega = [1/2, 1/4, 1/2, 3/4],
            ss_S = [False, False, False, False, False, False, False]\<rparr>"



section \<open>PMIS coarsening kernels\<close>

text \<open>The arrays the coarsening kernels write: \<open>cf\<close>, \<open>workspace\<close> and the flag \<open>undecided\<close>.\<close>

record pmis_state =
  pm_cf :: "int list"
  pm_workspace :: "bool list"
  pm_undecided :: bool

text \<open>\<^verbatim>\<open>kernel_csr_rs_pmis_unassigned_to_coarse\<close>: the body of one thread.\<close>

definition unassigned_to_coarse_thread :: "nat \<Rightarrow> real list \<Rightarrow> nat \<Rightarrow> pmis_state \<Rightarrow> pmis_state" where
  "unassigned_to_coarse_thread n omega row st =
     (if row \<ge> n then st
      else
        let (cf', flag) =
              (if pm_cf st ! row = 0
               then (if omega ! row \<ge> 1
                     then ((pm_cf st)[row := 1], True)
                     else ((pm_cf st)[row := 2], False))
               else (pm_cf st, False))
        in st\<lparr>pm_cf := cf', pm_workspace := (pm_workspace st)[row := flag]\<rparr>)"

text \<open>A launch runs the body for the threads \<open>0..<grid\<close>, here one after the other.\<close>

definition kernel_csr_rs_pmis_unassigned_to_coarse ::
  "nat \<Rightarrow> nat \<Rightarrow> real list \<Rightarrow> pmis_state \<Rightarrow> pmis_state" where
  "kernel_csr_rs_pmis_unassigned_to_coarse grid n omega st =
     fold (unassigned_to_coarse_thread n omega) [0..<grid] st"

text \<open>\<^verbatim>\<open>kernel_csr_rs_pmis_correct_coarse\<close>: the loop body at entry \<open>j\<close> of \<open>row\<close>.\<close>

definition correct_coarse_entry ::
  "csr \<Rightarrow> real list \<Rightarrow> bool list \<Rightarrow> bool list \<Rightarrow> nat \<Rightarrow> nat \<Rightarrow> int list \<Rightarrow> int list" where
  "correct_coarse_entry A omega S workspace row j cf =
     (if S ! j then
        let col = csr_col_ind A ! j in
        if workspace ! col then
          let omega_row = omega ! row; omega_col = omega ! col in
          if omega_row > omega_col then cf[col := 0]
          else if omega_row < omega_col then cf[row := 0]
          else cf
        else cf
      else cf)"

text \<open>One lane of the wavefront that owns \<open>row\<close>.\<close>

definition correct_coarse_lane ::
  "nat \<Rightarrow> csr \<Rightarrow> real list \<Rightarrow> bool list \<Rightarrow> nat \<Rightarrow> nat \<Rightarrow> pmis_state \<Rightarrow> pmis_state" where
  "correct_coarse_lane WFSIZE A omega S row lid st =
     (if row \<ge> nrow A then st
      else if pm_workspace st ! row then
        st\<lparr>pm_cf :=
             fold (correct_coarse_entry A omega S (pm_workspace st) row)
               (lane_indices WFSIZE lid (csr_row_ptr A ! row) (csr_row_ptr A ! (row + 1)))
               (pm_cf st)\<rparr>
      else st)"

definition kernel_csr_rs_pmis_correct_coarse ::
  "nat \<Rightarrow> nat \<Rightarrow> csr \<Rightarrow> real list \<Rightarrow> bool list \<Rightarrow> pmis_state \<Rightarrow> pmis_state" where
  "kernel_csr_rs_pmis_correct_coarse WFSIZE grid A omega S st =
     fold (\<lambda>row. fold (correct_coarse_lane WFSIZE A omega S row) [0..<WFSIZE]) [0..<grid] st"

text \<open>
  \<^verbatim>\<open>kernel_csr_rs_pmis_coarse_edges_to_fine\<close>: the loop of one lane, which returns at
  the first strongly connected coarse column.
\<close>

fun coarse_edges_to_fine_loop :: "csr \<Rightarrow> bool list \<Rightarrow> nat \<Rightarrow> nat list \<Rightarrow> int list \<Rightarrow> int list" where
  "coarse_edges_to_fine_loop A S row [] cf = cf"
| "coarse_edges_to_fine_loop A S row (j # js) cf =
     (if S ! j \<and> cf ! (csr_col_ind A ! j) = 1 then cf[row := 2]
      else coarse_edges_to_fine_loop A S row js cf)"

definition coarse_edges_to_fine_lane ::
  "nat \<Rightarrow> csr \<Rightarrow> bool list \<Rightarrow> nat \<Rightarrow> nat \<Rightarrow> pmis_state \<Rightarrow> pmis_state" where
  "coarse_edges_to_fine_lane WFSIZE A S row lid st =
     (if row \<ge> nrow A then st
      else if pm_cf st ! row = 0 then
        st\<lparr>pm_cf :=
             coarse_edges_to_fine_loop A S row
               (lane_indices WFSIZE lid (csr_row_ptr A ! row) (csr_row_ptr A ! (row + 1)))
               (pm_cf st)\<rparr>
      else st)"

definition kernel_csr_rs_pmis_coarse_edges_to_fine ::
  "nat \<Rightarrow> nat \<Rightarrow> csr \<Rightarrow> bool list \<Rightarrow> pmis_state \<Rightarrow> pmis_state" where
  "kernel_csr_rs_pmis_coarse_edges_to_fine WFSIZE grid A S st =
     fold (\<lambda>row. fold (coarse_edges_to_fine_lane WFSIZE A S row) [0..<WFSIZE]) [0..<grid] st"

text \<open>\<^verbatim>\<open>kernel_csr_rs_pmis_check_undecided\<close>.\<close>

definition check_undecided_thread :: "nat \<Rightarrow> nat \<Rightarrow> pmis_state \<Rightarrow> pmis_state" where
  "check_undecided_thread n row st =
     (if row \<ge> n then st
      else if pm_cf st ! row = 0 then st\<lparr>pm_undecided := True\<rparr>
      else st)"

definition kernel_csr_rs_pmis_check_undecided :: "nat \<Rightarrow> nat \<Rightarrow> pmis_state \<Rightarrow> pmis_state" where
  "kernel_csr_rs_pmis_check_undecided grid n st = fold (check_undecided_thread n) [0..<grid] st"

text \<open>
  Modelled from the spec: the host loop that launches the kernels is not part of the
  source file. One round is Promote, Arbitrate, Fine-by-coarse-neighbor and the
  convergence check, whose flag is cleared before the check; the loop runs a round and
  repeats while the flag is set, with no iteration cap.
\<close>

definition pmis_round ::
  "nat \<Rightarrow> nat \<Rightarrow> csr \<Rightarrow> real list \<Rightarrow> bool list \<Rightarrow> pmis_state \<Rightarrow> pmis_state" where
  "pmis_round WFSIZE grid A omega S st =
     (let st1 = kernel_csr_rs_pmis_unassigned_to_coarse grid (nrow A) omega st;
          st2 = kernel_csr_rs_pmis_correct_coarse WFSIZE grid A omega S st1;
          st3 = kernel_csr_rs_pmis_coarse_edges_to_fine WFSIZE grid A S st2
      in kernel_csr_rs_pmis_check_undecided grid (nrow A) (st3\<lparr>pm_undecided := False\<rparr>))"

partial_function (option) pmis_loop ::
  "nat \<Rightarrow> nat \<Rightarrow> csr \<Rightarrow> real list \<Rightarrow> bool list \<Rightarrow> pmis_state \<Rightarrow> pmis_state option" where
  "pmis_loop WFSIZE grid A omega S st =
     (let st' = pmis_round WFSIZE grid A omega S st
      in if pm_undecided st' then pmis_loop WFSIZE grid A omega S st' else Some st')"

section \<open>Closed forms of the coarsening kernels\<close>

definition row_range :: "csr \<Rightarrow> nat \<Rightarrow> nat set" where
  "row_range A r = {csr_row_ptr A ! r ..< csr_row_ptr A ! (r + 1)}"

text \<open>
  Row \<open>x\<close> loses an arbitration: some flagged row \<open>r\<close> has a strong entry to a flagged
  column, and \<open>x\<close> is the one of the two with the smaller weight.
\<close>

definition beaten :: "csr \<Rightarrow> real list \<Rightarrow> bool list \<Rightarrow> bool list \<Rightarrow> nat \<Rightarrow> bool" where
  "beaten A omega S ws x \<longleftrightarrow>
     (\<exists>r<nrow A. ws ! r \<and> (\<exists>j\<in>row_range A r. S ! j \<and> ws ! (csr_col_ind A ! j) \<and>
        ((csr_col_ind A ! j = x \<and> omega ! r > omega ! x) \<or>
         (r = x \<and> omega ! x < omega ! (csr_col_ind A ! j)))))"

definition coarse_neighbour :: "csr \<Rightarrow> bool list \<Rightarrow> int list \<Rightarrow> nat \<Rightarrow> bool" where
  "coarse_neighbour A S cf x \<longleftrightarrow> (\<exists>j\<in>row_range A x. S ! j \<and> cf ! (csr_col_ind A ! j) = 1)"

text \<open>The arrays of a coarsening run fit the matrix.\<close>

definition pmis_wf :: "csr \<Rightarrow> real list \<Rightarrow> bool list \<Rightarrow> pmis_state \<Rightarrow> bool" where
  "pmis_wf A omega S st \<longleftrightarrow>
     csr_wf A \<and> length omega = nrow A \<and> length S = length (csr_col_ind A) \<and>
     length (pm_cf st) = nrow A \<and> length (pm_workspace st) = nrow A"

text \<open>Row \<open>r\<close> has a strong entry whose column is \<open>c\<close>.\<close>

definition strong_edge :: "csr \<Rightarrow> bool list \<Rightarrow> nat \<Rightarrow> nat \<Rightarrow> bool" where
  "strong_edge A S r c \<longleftrightarrow> (\<exists>j\<in>row_range A r. S ! j \<and> csr_col_ind A ! j = c)"

section \<open>Auxiliary notions for the coarsening proofs\<close>

definition arb_inv :: "csr \<Rightarrow> real list \<Rightarrow> bool list \<Rightarrow> pmis_state \<Rightarrow> pmis_state \<Rightarrow> bool" where
  "arb_inv A omega S st s \<longleftrightarrow>
     pm_workspace s = pm_workspace st \<and> pm_undecided s = pm_undecided st \<and>
     length (pm_cf s) = length (pm_cf st) \<and>
     (\<forall>x<length (pm_cf st). pm_cf s ! x = pm_cf st ! x \<or>
        (pm_cf s ! x = 0 \<and> beaten A omega S (pm_workspace st) x))"

definition fine_inv :: "csr \<Rightarrow> bool list \<Rightarrow> pmis_state \<Rightarrow> pmis_state \<Rightarrow> bool" where
  "fine_inv A S st s \<longleftrightarrow>
     pm_workspace s = pm_workspace st \<and> pm_undecided s = pm_undecided st \<and>
     length (pm_cf s) = length (pm_cf st) \<and>
     (\<forall>x<length (pm_cf st). pm_cf s ! x = pm_cf st ! x \<or>
        (pm_cf st ! x = 0 \<and> pm_cf s ! x = 2 \<and> coarse_neighbour A S (pm_cf st) x))"

definition promote_cf :: "real list \<Rightarrow> int list \<Rightarrow> nat \<Rightarrow> int" where
  "promote_cf omega c i = (if c ! i = 0 then (if omega ! i \<ge> 1 then 1 else 2) else c ! i)"

definition flagged :: "real list \<Rightarrow> pmis_state \<Rightarrow> nat \<Rightarrow> bool" where
  "flagged omega st i \<longleftrightarrow> pm_cf st ! i = 0 \<and> omega ! i \<ge> 1"

definition undecided_rows :: "csr \<Rightarrow> pmis_state \<Rightarrow> nat set" where
  "undecided_rows A st = {x. x < nrow A \<and> pm_cf st ! x = 0}"

definition ex_A :: csr where
  "ex_A = \<lparr>nrow = 4, csr_row_ptr = [0, 2, 3, 5, 7], csr_col_ind = [0, 1, 1, 2, 0, 3, 0],
           csr_val = [2, -1, 1, 2, -1, 2, -1]\<rparr>"

definition ex_S :: "bool list" where
  "ex_S = [False, True, False, False, True, False, True]"

definition ex_omega :: "real list" where
  "ex_omega = [5/2, 5/4, 1/2, 3/4]"

definition ex_st :: pmis_state where
  "ex_st = \<lparr>pm_cf = [0, 0, 0, 0], pm_workspace = [False, False, False, False], pm_undecided = False\<rparr>"

definition ex_final :: pmis_state where
  "ex_final = \<lparr>pm_cf = [1, 1, 2, 2], pm_workspace = [False, True, False, False], pm_undecided = False\<rparr>"

definition pmis_inv :: "csr \<Rightarrow> real list \<Rightarrow> bool list \<Rightarrow> pmis_state \<Rightarrow> bool" where
  "pmis_inv A omega S st \<longleftrightarrow>
     (\<forall>x<nrow A. pm_cf st ! x = 0 \<longrightarrow> \<not> coarse_neighbour A S (pm_cf st) x) \<and>
     (\<forall>r<nrow A. \<forall>c. strong_edge A S r c \<and> omega ! r < omega ! c \<and> pm_cf st ! r = 1 \<longrightarrow>
         pm_cf st ! c \<noteq> 0 \<and> pm_cf st ! c \<noteq> 1)"

definition ex_mid :: pmis_state where
  "ex_mid = \<lparr>pm_cf = [1, 0, 2, 2], pm_workspace = [True, True, False, False], pm_undecided = True\<rparr>"

definition sym_A :: csr where
  "sym_A = \<lparr>nrow = 2, csr_row_ptr = [0, 2, 4], csr_col_ind = [0, 1, 0, 1],
            csr_val = [2, -1, -1, 2]\<rparr>"

definition sym_S :: "bool list" where
  "sym_S = [False, True, True, False]"

definition sym_omega :: "real list" where
  "sym_omega = [3/2, 5/4]"

definition sym_st :: pmis_state where
  "sym_st = \<lparr>pm_cf = [0, 0], pm_workspace = [False, False], pm_undecided = False\<rparr>"

section \<open>Direct interpolation kernels\<close>

text \<open>The arrays the counting pass writes.\<close>

record interp_count =
  ic_Amin :: "real list"
  ic_Amax :: "real list"
  ic_row_nnz :: "nat list"
  ic_f2c :: "nat list"

text \<open>
  \<^verbatim>\<open>kernel_csr_rs_direct_interp_nnz\<close>: the body of the first loop (minimum and maximum
  over the strongly connected coarse entries) and of the second loop (the count).
\<close>

definition direct_interp_minmax_step ::
  "csr \<Rightarrow> bool list \<Rightarrow> int list \<Rightarrow> nat \<Rightarrow> real \<times> real \<Rightarrow> real \<times> real" where
  "direct_interp_minmax_step A S cf j mm =
     (case mm of (amin, amax) \<Rightarrow>
        if S ! j then
          let col = csr_col_ind A ! j in
          if cf ! col = 1 then
            let val = csr_val A ! j in
            ((if amin < val then amin else val), (if amax > val then amax else val))
          else (amin, amax)
        else (amin, amax))"

definition direct_interp_count_step ::
  "csr \<Rightarrow> bool list \<Rightarrow> int list \<Rightarrow> real \<Rightarrow> real \<Rightarrow> nat \<Rightarrow> nat \<Rightarrow> nat" where
  "direct_interp_count_step A S cf amin amax j nnz =
     (if S ! j = True then
        let col = csr_col_ind A ! j in
        if cf ! col = 1 then
          let val = csr_val A ! j in
          if val \<le> amin \<or> val \<ge> amax then nnz + 1 else nnz
        else nnz
      else nnz)"

definition direct_interp_nnz_thread ::
  "csr \<Rightarrow> bool list \<Rightarrow> int list \<Rightarrow> nat \<Rightarrow> interp_count \<Rightarrow> interp_count" where
  "direct_interp_nnz_thread A S cf row st =
     (if row \<ge> nrow A then st
      else if cf ! row = 1 then
        st\<lparr>ic_f2c := (ic_f2c st)[row := 1], ic_row_nnz := (ic_row_nnz st)[row := 1]\<rparr>
      else
        let row_begin = csr_row_ptr A ! row;
            row_end = csr_row_ptr A ! (row + 1);
            (amin0, amax0) = fold (direct_interp_minmax_step A S cf) [row_begin..<row_end] (0, 0);
            amin = amin0 * (2 / 10);
            amax = amax0 * (2 / 10);
            nnz = fold (direct_interp_count_step A S cf amin amax) [row_begin..<row_end] 0
        in st\<lparr>ic_f2c := (ic_f2c st)[row := 0],
               ic_Amin := (ic_Amin st)[row := amin],
               ic_Amax := (ic_Amax st)[row := amax],
               ic_row_nnz := (ic_row_nnz st)[row := nnz]\<rparr>)"

definition kernel_csr_rs_direct_interp_nnz ::
  "nat \<Rightarrow> csr \<Rightarrow> bool list \<Rightarrow> int list \<Rightarrow> interp_count \<Rightarrow> interp_count" where
  "kernel_csr_rs_direct_interp_nnz grid A S cf st =
     fold (direct_interp_nnz_thread A S cf) [0..<grid] st"

text \<open>
  The prolongation matrix under construction: the arrays \<open>prolong_csr_col_ind\<close> and
  \<open>prolong_csr_val\<close> (\<open>csr_col_ind_P\<close> and \<open>csr_val_P\<close> in the extended+i kernel).
\<close>

record prolong =
  prolong_csr_col_ind :: "nat list"
  prolong_csr_val :: "real list"

text \<open>
  \<^verbatim>\<open>kernel_csr_rs_direct_interp_fill\<close>: the first loop gathers the diagonal and the six
  sums.
\<close>

record direct_sums =
  ds_diag :: real
  ds_a_num :: real
  ds_a_den :: real
  ds_b_num :: real
  ds_b_den :: real
  ds_d_neg :: real
  ds_d_pos :: real

definition direct_interp_sums_step ::
  "csr \<Rightarrow> bool list \<Rightarrow> int list \<Rightarrow> real list \<Rightarrow> real list \<Rightarrow> nat \<Rightarrow> nat \<Rightarrow>
   direct_sums \<Rightarrow> direct_sums" where
  "direct_interp_sums_step A S cf Amin Amax row j s =
     (let col = csr_col_ind A ! j; val = csr_val A ! j in
      if col = row then s\<lparr>ds_diag := val\<rparr>
      else if val < 0 then
        (let s1 = s\<lparr>ds_a_num := ds_a_num s + val\<rparr> in
         if S ! j \<and> cf ! col = 1 then
           (let s2 = s1\<lparr>ds_a_den := ds_a_den s1 + val\<rparr> in
            if val > Amin ! row then s2\<lparr>ds_d_neg := ds_d_neg s2 + val\<rparr> else s2)
         else s1)
      else
        (let s1 = s\<lparr>ds_b_num := ds_b_num s + val\<rparr> in
         if S ! j \<and> cf ! col = 1 then
           (let s2 = s1\<lparr>ds_b_den := ds_b_den s1 + val\<rparr> in
            if val < Amax ! row then s2\<lparr>ds_d_pos := ds_d_pos s2 + val\<rparr> else s2)
         else s1))"

text \<open>
  The kernel keeps its place in P in \<^verbatim>\<open>I row_P = prolong_csr_row_ptr[row]\<close>: a variable
  of the index type \<open>I\<close> that is read from an array of the pointer type \<open>J\<close> and
  incremented in \<open>I\<close>. Both types are template parameters; \<open>to_I\<close> is the conversion
  of a value to the type \<open>I\<close>, a parameter of the model (the identity where \<open>I\<close>
  holds the value, the value modulo \<open>2 ^ 32\<close> for a 32-bit \<open>I\<close> and a wider \<open>J\<close>).

  The second loop writes the entries of the row of P, \<open>row_P\<close> counting them.
\<close>

definition direct_interp_fill_step ::
  "(nat \<Rightarrow> nat) \<Rightarrow> csr \<Rightarrow> bool list \<Rightarrow> int list \<Rightarrow> real list \<Rightarrow> real list \<Rightarrow> nat list \<Rightarrow> nat \<Rightarrow>
   real \<Rightarrow> real \<Rightarrow> nat \<Rightarrow> nat \<times> prolong \<Rightarrow> nat \<times> prolong" where
  "direct_interp_fill_step to_I A S cf Amin Amax f2c row alpha beta j rp =
     (case rp of (row_P, P) \<Rightarrow>
        if S ! j = True then
          let col = csr_col_ind A ! j; val = csr_val A ! j in
          if cf ! col = 1 then
            if val > Amin ! row \<and> val < Amax ! row then (row_P, P)
            else (to_I (row_P + 1),
                  P\<lparr>prolong_csr_col_ind := (prolong_csr_col_ind P)[row_P := f2c ! col],
                    prolong_csr_val :=
                      (prolong_csr_val P)[row_P := (if val < 0 then alpha else beta) * val]\<rparr>)
          else (row_P, P)
        else (row_P, P))"

text \<open>
  The coefficients \<open>alpha\<close> and \<open>beta\<close> that the thread computes between the two
  loops. A division by zero is the \<open>0\<close> of HOL here, where the source yields an
  infinity or a NaN.
\<close>

definition direct_interp_fill_coeffs ::
  "csr \<Rightarrow> bool list \<Rightarrow> int list \<Rightarrow> real list \<Rightarrow> real list \<Rightarrow> nat \<Rightarrow> real \<times> real" where
  "direct_interp_fill_coeffs A S cf Amin Amax row =
     (let row_begin = csr_row_ptr A ! row;
          row_end = csr_row_ptr A ! (row + 1);
          s = fold (direct_interp_sums_step A S cf Amin Amax row) [row_begin..<row_end]
                \<lparr>ds_diag = 0, ds_a_num = 0, ds_a_den = 0, ds_b_num = 0, ds_b_den = 0,
                 ds_d_neg = 0, ds_d_pos = 0\<rparr>;
          cf_neg = (if \<bar>ds_a_den s - ds_d_neg s\<bar> > 1 / 10 ^ 32
                    then ds_a_den s / (ds_a_den s - ds_d_neg s) else 1);
          cf_pos = (if \<bar>ds_b_den s - ds_d_pos s\<bar> > 1 / 10 ^ 32
                    then ds_b_den s / (ds_b_den s - ds_d_pos s) else 1);
          diag = (if ds_b_num s > 0 \<and> \<bar>ds_b_den s\<bar> < 1 / 10 ^ 32
                  then ds_diag s + ds_b_num s else ds_diag s);
          alpha = (if \<bar>ds_a_den s\<bar> > 1 / 10 ^ 32
                   then - cf_neg * ds_a_num s / (diag * ds_a_den s) else 0);
          beta = (if \<bar>ds_b_den s\<bar> > 1 / 10 ^ 32
                  then - cf_pos * ds_b_num s / (diag * ds_b_den s) else 0)
      in (alpha, beta))"

text \<open>
  The part of the thread after the coarse rows have returned; it yields the final
  \<open>row_P\<close> with the matrix.
\<close>

definition direct_interp_fill_row ::
  "(nat \<Rightarrow> nat) \<Rightarrow> csr \<Rightarrow> nat list \<Rightarrow> bool list \<Rightarrow> int list \<Rightarrow> real list \<Rightarrow> real list \<Rightarrow>
   nat list \<Rightarrow> nat \<Rightarrow> prolong \<Rightarrow> nat \<times> prolong" where
  "direct_interp_fill_row to_I A prolong_csr_row_ptr S cf Amin Amax f2c row P =
     (let row_P = to_I (prolong_csr_row_ptr ! row);
          (alpha, beta) = direct_interp_fill_coeffs A S cf Amin Amax row
      in fold (direct_interp_fill_step to_I A S cf Amin Amax f2c row alpha beta)
           [csr_row_ptr A ! row..<csr_row_ptr A ! (row + 1)] (row_P, P))"

definition direct_interp_fill_thread ::
  "(nat \<Rightarrow> nat) \<Rightarrow> csr \<Rightarrow> nat list \<Rightarrow> bool list \<Rightarrow> int list \<Rightarrow> real list \<Rightarrow> real list \<Rightarrow>
   nat list \<Rightarrow> nat \<Rightarrow> prolong \<Rightarrow> prolong" where
  "direct_interp_fill_thread to_I A prolong_csr_row_ptr S cf Amin Amax f2c row P =
     (if row \<ge> nrow A then P
      else
        let row_P = to_I (prolong_csr_row_ptr ! row) in
        if cf ! row = 1 then
          P\<lparr>prolong_csr_col_ind := (prolong_csr_col_ind P)[row_P := f2c ! row],
            prolong_csr_val := (prolong_csr_val P)[row_P := 1]\<rparr>
        else snd (direct_interp_fill_row to_I A prolong_csr_row_ptr S cf Amin Amax f2c row P))"

definition kernel_csr_rs_direct_interp_fill ::
  "(nat \<Rightarrow> nat) \<Rightarrow> nat \<Rightarrow> csr \<Rightarrow> nat list \<Rightarrow> bool list \<Rightarrow> int list \<Rightarrow> real list \<Rightarrow> real list \<Rightarrow>
   nat list \<Rightarrow> prolong \<Rightarrow> prolong" where
  "kernel_csr_rs_direct_interp_fill to_I grid A prolong_csr_row_ptr S cf Amin Amax f2c P =
     fold (direct_interp_fill_thread to_I A prolong_csr_row_ptr S cf Amin Amax f2c) [0..<grid] P"
section \<open>Direct interpolation: auxiliary notions\<close>

definition direct_keeps :: "csr \<Rightarrow> bool list \<Rightarrow> int list \<Rightarrow> real \<Rightarrow> real \<Rightarrow> nat \<Rightarrow> bool" where
  "direct_keeps A S cf amin amax j \<longleftrightarrow>
     S ! j \<and> cf ! (csr_col_ind A ! j) = 1 \<and> (csr_val A ! j \<le> amin \<or> csr_val A ! j \<ge> amax)"
















section \<open>Compression of the prolongation matrix\<close>

text \<open>The arrays \<open>comp_csr_col_ind\<close> and \<open>comp_csr_val\<close> of the compressed matrix.\<close>

record compressed =
  comp_csr_col_ind :: "nat list"
  comp_csr_val :: "real list"

text \<open>
  \<^verbatim>\<open>kernel_csr_rs_extpi_interp_compress_fill\<close>, one thread per row of the matrix \<open>A\<close>
  to compress. First loop: absolute row maximum and row sum.
\<close>

definition compress_fill_scan_step :: "csr \<Rightarrow> nat \<Rightarrow> real \<times> real \<Rightarrow> real \<times> real" where
  "compress_fill_scan_step A j ms =
     (case ms of (row_max, row_sum) \<Rightarrow>
        let val = csr_val A ! j in (max row_max \<bar>val\<bar>, row_sum + val))"

text \<open>The threshold \<open>row_max * trunc\<close> of a row.\<close>

definition compress_threshold :: "csr \<Rightarrow> real \<Rightarrow> nat \<Rightarrow> real" where
  "compress_threshold A trunc row =
     fst (fold (compress_fill_scan_step A)
            [csr_row_ptr A ! row..<csr_row_ptr A ! (row + 1)] (0, 0)) * trunc"

text \<open>Second loop: the entries that are kept, their sum and their number.\<close>

definition compress_fill_keep_step ::
  "csr \<Rightarrow> real \<Rightarrow> nat \<Rightarrow> nat \<Rightarrow> nat \<times> real \<times> compressed \<Rightarrow> nat \<times> real \<times> compressed" where
  "compress_fill_keep_step A threshold comp_row_begin j st =
     (case st of (nnz, comp_row_sum, C) \<Rightarrow>
        let val = csr_val A ! j in
        if \<bar>val\<bar> \<ge> threshold then
          (nnz + 1, comp_row_sum + val,
           C\<lparr>comp_csr_col_ind := (comp_csr_col_ind C)[comp_row_begin + nnz := csr_col_ind A ! j],
             comp_csr_val := (comp_csr_val C)[comp_row_begin + nnz := csr_val A ! j]\<rparr>)
        else (nnz, comp_row_sum, C))"

text \<open>Third loop: the scaling of the compressed row.\<close>

definition compress_fill_scale_step :: "real \<Rightarrow> nat \<Rightarrow> compressed \<Rightarrow> compressed" where
  "compress_fill_scale_step scale j C =
     C\<lparr>comp_csr_val := (comp_csr_val C)[j := comp_csr_val C ! j * scale]\<rparr>"

definition compress_fill_thread ::
  "csr \<Rightarrow> real \<Rightarrow> nat list \<Rightarrow> nat \<Rightarrow> compressed \<Rightarrow> compressed" where
  "compress_fill_thread A trunc comp_csr_row_ptr row C =
     (if row \<ge> nrow A then C
      else
        let row_begin = csr_row_ptr A ! row;
            row_end = csr_row_ptr A ! (row + 1);
            (row_max, row_sum) = fold (compress_fill_scan_step A) [row_begin..<row_end] (0, 0);
            threshold = row_max * trunc;
            comp_row_begin = comp_csr_row_ptr ! row;
            comp_row_end = comp_csr_row_ptr ! (row + 1);
            (nnz, comp_row_sum, C1) =
               fold (compress_fill_keep_step A threshold comp_row_begin)
                 [row_begin..<row_end] (0, 0, C);
            scale = row_sum / comp_row_sum
        in fold (compress_fill_scale_step scale) [comp_row_begin..<comp_row_end] C1)"

definition kernel_csr_rs_extpi_interp_compress_fill ::
  "nat \<Rightarrow> csr \<Rightarrow> real \<Rightarrow> nat list \<Rightarrow> compressed \<Rightarrow> compressed" where
  "kernel_csr_rs_extpi_interp_compress_fill grid A trunc comp_csr_row_ptr C =
     fold (compress_fill_thread A trunc comp_csr_row_ptr) [0..<grid] C"

text \<open>The entries of a row that reach the threshold, and a row of a value array.\<close>

definition compress_kept :: "csr \<Rightarrow> real \<Rightarrow> nat \<Rightarrow> nat list" where
  "compress_kept A trunc row =
     filter (\<lambda>j. \<bar>csr_val A ! j\<bar> \<ge> compress_threshold A trunc row)
       [csr_row_ptr A ! row..<csr_row_ptr A ! (row + 1)]"

definition row_slice :: "nat \<Rightarrow> nat \<Rightarrow> 'a list \<Rightarrow> 'a list" where
  "row_slice b e xs = take (e - b) (drop b xs)"

section \<open>Compression: auxiliary notions\<close>

definition compress_scale :: "csr \<Rightarrow> real \<Rightarrow> nat \<Rightarrow> real" where
  "compress_scale A trunc row =
     sum_list (map (\<lambda>j. csr_val A ! j) [csr_row_ptr A ! row..<csr_row_ptr A ! (row + 1)]) /
     sum_list (map (\<lambda>j. csr_val A ! j) (compress_kept A trunc row))"

definition cmp_A :: csr where
  "cmp_A = \<lparr>nrow = 2, csr_row_ptr = [0, 3, 4], csr_col_ind = [0, 1, 2, 0],
            csr_val = [1/2, 1/10, 2/5, 1]\<rparr>"

definition cmp_C :: compressed where
  "cmp_C = \<lparr>comp_csr_col_ind = [0, 0, 0], comp_csr_val = [0, 0, 0]\<rparr>"

section \<open>The per-row hash set and hash map\<close>

text \<open>
  Modelled from the spec: \<open>unordered_set\<close> and \<open>unordered_map\<close> are declared in
  \<^verbatim>\<open>hip_unordered_set.hpp\<close> and \<^verbatim>\<open>hip_unordered_map.hpp\<close>, which are not part of the
  source file. Following the spec, the table is a fixed-capacity open-addressed array of
  \<open>HASHSIZE\<close> key slots (with one value slot each for the map), an empty slot holds the
  sentinel \<open>EMPTY\<close>, \<open>insert\<close> is insert-if-absent and tells whether the key is new,
  \<open>add\<close> increments the value of a key that is present and tells whether it is,
  \<open>contains\<close> tells whether a key is present. The collision policy, which the spec
  leaves open, is linear probing from \<open>hash key mod HASHSIZE\<close> for a hash function
  \<open>hash\<close> that is a parameter; a key that finds neither itself nor an empty slot in
  \<open>HASHSIZE\<close> probes is dropped (the overflow that the caller has to exclude).

  \<open>probe\<close> yields the first slot on the probe path that holds the key or is empty.
\<close>

fun probe :: "nat \<Rightarrow> nat \<Rightarrow> nat \<Rightarrow> nat \<Rightarrow> nat list \<Rightarrow> nat option" where
  "probe EMPTY key 0 h keys = None"
| "probe EMPTY key (Suc n) h keys =
     (if keys ! h = key then Some h
      else if keys ! h = EMPTY then Some h
      else probe EMPTY key n ((h + 1) mod length keys) keys)"

definition find_slot :: "nat \<Rightarrow> (nat \<Rightarrow> nat) \<Rightarrow> nat \<Rightarrow> nat list \<Rightarrow> nat option" where
  "find_slot EMPTY hash key keys = probe EMPTY key (length keys) (hash key mod length keys) keys"

definition unordered_set_insert ::
  "nat \<Rightarrow> (nat \<Rightarrow> nat) \<Rightarrow> nat \<Rightarrow> nat list \<Rightarrow> bool \<times> nat list" where
  "unordered_set_insert EMPTY hash key keys =
     (if key = EMPTY then (False, keys)
      else case find_slot EMPTY hash key keys of
        None \<Rightarrow> (False, keys)
      | Some h \<Rightarrow> if keys ! h = key then (False, keys) else (True, keys[h := key]))"

record hash_map =
  hm_keys :: "nat list"
  hm_vals :: "real list"

definition unordered_map_insert ::
  "nat \<Rightarrow> (nat \<Rightarrow> nat) \<Rightarrow> nat \<Rightarrow> hash_map \<Rightarrow> bool \<times> hash_map" where
  "unordered_map_insert EMPTY hash key m =
     (if key = EMPTY then (False, m)
      else case find_slot EMPTY hash key (hm_keys m) of
        None \<Rightarrow> (False, m)
      | Some h \<Rightarrow>
          if hm_keys m ! h = key then (False, m)
          else (True, m\<lparr>hm_keys := (hm_keys m)[h := key], hm_vals := (hm_vals m)[h := 0]\<rparr>))"

definition unordered_map_contains :: "nat \<Rightarrow> (nat \<Rightarrow> nat) \<Rightarrow> nat \<Rightarrow> hash_map \<Rightarrow> bool" where
  "unordered_map_contains EMPTY hash key m =
     (if key = EMPTY then False
      else case find_slot EMPTY hash key (hm_keys m) of
        None \<Rightarrow> False
      | Some h \<Rightarrow> hm_keys m ! h = key)"

definition unordered_map_add ::
  "nat \<Rightarrow> (nat \<Rightarrow> nat) \<Rightarrow> nat \<Rightarrow> real \<Rightarrow> hash_map \<Rightarrow> bool \<times> hash_map" where
  "unordered_map_add EMPTY hash key val m =
     (if key = EMPTY then (False, m)
      else case find_slot EMPTY hash key (hm_keys m) of
        None \<Rightarrow> (False, m)
      | Some h \<Rightarrow>
          if hm_keys m ! h = key
          then (True, m\<lparr>hm_vals := (hm_vals m)[h := hm_vals m ! h + val]\<rparr>)
          else (False, m))"

text \<open>A fresh table, as the constructors leave it.\<close>

definition empty_set :: "nat \<Rightarrow> nat \<Rightarrow> nat list" where
  "empty_set EMPTY HASHSIZE = replicate HASHSIZE EMPTY"

definition empty_map :: "nat \<Rightarrow> nat \<Rightarrow> hash_map" where
  "empty_map EMPTY HASHSIZE = \<lparr>hm_keys = replicate HASHSIZE EMPTY, hm_vals = replicate HASHSIZE 0\<rparr>"

section \<open>Extended+i interpolation: estimate and count\<close>

text \<open>
  \<^verbatim>\<open>kernel_csr_rs_extpi_interp_max\<close>: the loop over the columns of a fine neighbour,
  left at the first coarse column when \<open>FF1\<close> is set.
\<close>

fun extpi_max_inner ::
  "bool \<Rightarrow> csr \<Rightarrow> bool list \<Rightarrow> int list \<Rightarrow> nat \<Rightarrow> nat list \<Rightarrow> nat \<Rightarrow> nat" where
  "extpi_max_inner FF1 A S cf col_j [] row_nnz = row_nnz"
| "extpi_max_inner FF1 A S cf col_j (k # ks) row_nnz =
     (if S ! k = False then extpi_max_inner FF1 A S cf col_j ks row_nnz
      else
        let col_k = csr_col_ind A ! k in
        if col_k = col_j then extpi_max_inner FF1 A S cf col_j ks row_nnz
        else if cf ! col_k = 1 then
          (if FF1 = True then row_nnz + 1
           else extpi_max_inner FF1 A S cf col_j ks (row_nnz + 1))
        else extpi_max_inner FF1 A S cf col_j ks row_nnz)"

definition extpi_max_step ::
  "bool \<Rightarrow> csr \<Rightarrow> bool list \<Rightarrow> int list \<Rightarrow> nat \<Rightarrow> nat \<Rightarrow> nat \<Rightarrow> nat" where
  "extpi_max_step FF1 A S cf row j row_nnz =
     (if S ! j = False then row_nnz
      else
        let col_j = csr_col_ind A ! j in
        if col_j = row then row_nnz
        else if cf ! col_j = 1 then row_nnz + 1
        else extpi_max_inner FF1 A S cf col_j
               [csr_row_ptr A ! col_j..<csr_row_ptr A ! (col_j + 1)] row_nnz)"

definition extpi_max_wavefront ::
  "nat \<Rightarrow> bool \<Rightarrow> csr \<Rightarrow> bool list \<Rightarrow> int list \<Rightarrow> nat \<Rightarrow> nat list \<Rightarrow> nat list" where
  "extpi_max_wavefront WFSIZE FF1 A S cf row row_max =
     (if row \<ge> nrow A then row_max
      else if cf ! row = 1 then row_max[row := 1]
      else
        let row_begin = csr_row_ptr A ! row;
            row_end = csr_row_ptr A ! (row + 1);
            lanes = map (\<lambda>lid. fold (extpi_max_step FF1 A S cf row)
                                 (lane_indices WFSIZE lid row_begin row_end) 0) [0..<WFSIZE]
        in row_max[row := wf_reduce_sum lanes])"

definition kernel_csr_rs_extpi_interp_max ::
  "nat \<Rightarrow> nat \<Rightarrow> bool \<Rightarrow> csr \<Rightarrow> bool list \<Rightarrow> int list \<Rightarrow> nat list \<Rightarrow> nat list" where
  "kernel_csr_rs_extpi_interp_max WFSIZE grid FF1 A S cf row_max =
     fold (extpi_max_wavefront WFSIZE FF1 A S cf) [0..<grid] row_max"

text \<open>
  \<^verbatim>\<open>kernel_csr_rs_extpi_interp_nnz\<close>: the same loops with the hash set; \<open>insert\<close>
  yields 1 for a new key and 0 for a duplicate.
\<close>

fun extpi_nnz_inner ::
  "nat \<Rightarrow> (nat \<Rightarrow> nat) \<Rightarrow> bool \<Rightarrow> csr \<Rightarrow> bool list \<Rightarrow> int list \<Rightarrow> nat \<Rightarrow> nat list \<Rightarrow>
   nat \<times> nat list \<Rightarrow> nat \<times> nat list" where
  "extpi_nnz_inner EMPTY hash FF1 A S cf col_j [] st = st"
| "extpi_nnz_inner EMPTY hash FF1 A S cf col_j (k # ks) st =
     (if S ! k = False then extpi_nnz_inner EMPTY hash FF1 A S cf col_j ks st
      else
        let col_k = csr_col_ind A ! k in
        if col_k = col_j then extpi_nnz_inner EMPTY hash FF1 A S cf col_j ks st
        else if cf ! col_k = 1 then
          (case st of (nnz, tbl) \<Rightarrow>
             case unordered_set_insert EMPTY hash col_k tbl of (new, tbl') \<Rightarrow>
               let st' = (nnz + (if new then 1 else 0), tbl') in
               if FF1 = True then st'
               else extpi_nnz_inner EMPTY hash FF1 A S cf col_j ks st')
        else extpi_nnz_inner EMPTY hash FF1 A S cf col_j ks st)"

definition extpi_nnz_step ::
  "nat \<Rightarrow> (nat \<Rightarrow> nat) \<Rightarrow> bool \<Rightarrow> csr \<Rightarrow> bool list \<Rightarrow> int list \<Rightarrow> nat \<Rightarrow> nat \<Rightarrow>
   nat \<times> nat list \<Rightarrow> nat \<times> nat list" where
  "extpi_nnz_step EMPTY hash FF1 A S cf row j st =
     (if S ! j = False then st
      else
        let col_j = csr_col_ind A ! j in
        if col_j = row then st
        else if cf ! col_j = 1 then
          (case st of (nnz, tbl) \<Rightarrow>
             case unordered_set_insert EMPTY hash col_j tbl of (new, tbl') \<Rightarrow>
               (nnz + (if new then 1 else 0), tbl'))
        else extpi_nnz_inner EMPTY hash FF1 A S cf col_j
               [csr_row_ptr A ! col_j..<csr_row_ptr A ! (col_j + 1)] st)"

text \<open>
  The lanes of a wavefront share the set; here they run one after the other, each with
  its own counter.
\<close>

definition extpi_nnz_lane ::
  "nat \<Rightarrow> nat \<Rightarrow> (nat \<Rightarrow> nat) \<Rightarrow> bool \<Rightarrow> csr \<Rightarrow> bool list \<Rightarrow> int list \<Rightarrow> nat \<Rightarrow> nat \<Rightarrow>
   nat list \<times> nat list \<Rightarrow> nat list \<times> nat list" where
  "extpi_nnz_lane WFSIZE EMPTY hash FF1 A S cf row lid st =
     (case st of (lanes, tbl) \<Rightarrow>
        case fold (extpi_nnz_step EMPTY hash FF1 A S cf row)
               (lane_indices WFSIZE lid (csr_row_ptr A ! row) (csr_row_ptr A ! (row + 1)))
               (0, tbl) of
          (nnz, tbl') \<Rightarrow> (lanes @ [nnz], tbl'))"

record extpi_count =
  ec_row_nnz :: "nat list"
  ec_state :: "nat list"

definition extpi_nnz_wavefront ::
  "nat \<Rightarrow> nat \<Rightarrow> nat \<Rightarrow> (nat \<Rightarrow> nat) \<Rightarrow> bool \<Rightarrow> csr \<Rightarrow> bool list \<Rightarrow> int list \<Rightarrow> nat \<Rightarrow>
   extpi_count \<Rightarrow> extpi_count" where
  "extpi_nnz_wavefront WFSIZE HASHSIZE EMPTY hash FF1 A S cf row st =
     (if row \<ge> nrow A then st
      else if cf ! row = 1 then
        st\<lparr>ec_state := (ec_state st)[row := 1], ec_row_nnz := (ec_row_nnz st)[row := 1]\<rparr>
      else
        let (lanes, tbl) = fold (extpi_nnz_lane WFSIZE EMPTY hash FF1 A S cf row) [0..<WFSIZE]
                             ([], empty_set EMPTY HASHSIZE)
        in st\<lparr>ec_row_nnz := (ec_row_nnz st)[row := wf_reduce_sum lanes],
               ec_state := (ec_state st)[row := 0]\<rparr>)"

definition kernel_csr_rs_extpi_interp_nnz ::
  "nat \<Rightarrow> nat \<Rightarrow> nat \<Rightarrow> nat \<Rightarrow> (nat \<Rightarrow> nat) \<Rightarrow> bool \<Rightarrow> csr \<Rightarrow> bool list \<Rightarrow> int list \<Rightarrow>
   extpi_count \<Rightarrow> extpi_count" where
  "kernel_csr_rs_extpi_interp_nnz WFSIZE HASHSIZE grid EMPTY hash FF1 A S cf st =
     fold (extpi_nnz_wavefront WFSIZE HASHSIZE EMPTY hash FF1 A S cf) [0..<grid] st"

section \<open>Extended+i estimate and count: auxiliary notions\<close>

text \<open>What the two kernels store for a row.\<close>

definition extpi_max_row :: "nat \<Rightarrow> bool \<Rightarrow> csr \<Rightarrow> bool list \<Rightarrow> int list \<Rightarrow> nat \<Rightarrow> nat" where
  "extpi_max_row W FF1 A S cf row =
     (if cf ! row = 1 then 1
      else wf_reduce_sum (map (\<lambda>lid. fold (extpi_max_step FF1 A S cf row)
             (lane_indices W lid (csr_row_ptr A ! row) (csr_row_ptr A ! (row + 1))) 0) [0..<W]))"

definition extpi_nnz_row ::
  "nat \<Rightarrow> nat \<Rightarrow> nat \<Rightarrow> (nat \<Rightarrow> nat) \<Rightarrow> bool \<Rightarrow> csr \<Rightarrow> bool list \<Rightarrow> int list \<Rightarrow> nat \<Rightarrow> nat" where
  "extpi_nnz_row W H E hash FF1 A S cf row =
     (if cf ! row = 1 then 1
      else wf_reduce_sum (fst (fold (extpi_nnz_lane W E hash FF1 A S cf row) [0..<W]
             ([], empty_set E H))))"

definition ex_ec :: extpi_count where
  "ex_ec = \<lparr>ec_row_nnz = [0, 0, 0, 0], ec_state = [0, 0, 0, 0]\<rparr>"

section \<open>Extended+i interpolation: fill\<close>

text \<open>
  \<^verbatim>\<open>kernel_csr_rs_extpi_interp_fill\<close>. The map is filled with the pattern of the row, by
  the loops of the count pass.
\<close>

fun extpi_fill_insert_inner ::
  "nat \<Rightarrow> (nat \<Rightarrow> nat) \<Rightarrow> bool \<Rightarrow> csr \<Rightarrow> bool list \<Rightarrow> int list \<Rightarrow> nat \<Rightarrow> nat list \<Rightarrow>
   hash_map \<Rightarrow> hash_map" where
  "extpi_fill_insert_inner EMPTY hash FF1 A S cf col_ik [] m = m"
| "extpi_fill_insert_inner EMPTY hash FF1 A S cf col_ik (l # ls) m =
     (if S ! l = False then extpi_fill_insert_inner EMPTY hash FF1 A S cf col_ik ls m
      else
        let col_kl = csr_col_ind A ! l in
        if col_kl = col_ik then extpi_fill_insert_inner EMPTY hash FF1 A S cf col_ik ls m
        else if cf ! col_kl = 1 then
          (let m' = snd (unordered_map_insert EMPTY hash col_kl m) in
           if FF1 = True then m'
           else extpi_fill_insert_inner EMPTY hash FF1 A S cf col_ik ls m')
        else extpi_fill_insert_inner EMPTY hash FF1 A S cf col_ik ls m)"

definition extpi_fill_insert_step ::
  "nat \<Rightarrow> (nat \<Rightarrow> nat) \<Rightarrow> bool \<Rightarrow> csr \<Rightarrow> bool list \<Rightarrow> int list \<Rightarrow> nat \<Rightarrow> nat \<Rightarrow>
   hash_map \<Rightarrow> hash_map" where
  "extpi_fill_insert_step EMPTY hash FF1 A S cf row k m =
     (if S ! k = False then m
      else
        let col_ik = csr_col_ind A ! k in
        if col_ik = row then m
        else if cf ! col_ik = 1 then snd (unordered_map_insert EMPTY hash col_ik m)
        else extpi_fill_insert_inner EMPTY hash FF1 A S cf col_ik
               [csr_row_ptr A ! col_ik..<csr_row_ptr A ! (col_ik + 1)] m)"

text \<open>The map of the row after all lanes have inserted their columns.\<close>

definition extpi_fill_pattern ::
  "nat \<Rightarrow> nat \<Rightarrow> nat \<Rightarrow> (nat \<Rightarrow> nat) \<Rightarrow> bool \<Rightarrow> csr \<Rightarrow> bool list \<Rightarrow> int list \<Rightarrow> nat \<Rightarrow> hash_map" where
  "extpi_fill_pattern WFSIZE HASHSIZE EMPTY hash FF1 A S cf row =
     fold (\<lambda>lid. fold (extpi_fill_insert_step EMPTY hash FF1 A S cf row)
                   (lane_indices WFSIZE lid (csr_row_ptr A ! row) (csr_row_ptr A ! (row + 1))))
       [0..<WFSIZE] (empty_map EMPTY HASHSIZE)"

text \<open>
  The numerical part. For a strongly connected fine neighbour (the row \<open>col_ik\<close>), the
  first loop over its columns gathers \<open>sum_l\<close>, the later divisor of \<open>val_ik\<close>, and
  \<open>val_ki\<close>.
\<close>

definition extpi_fill_sum_l_step ::
  "nat \<Rightarrow> (nat \<Rightarrow> nat) \<Rightarrow> csr \<Rightarrow> int list \<Rightarrow> hash_map \<Rightarrow> nat \<Rightarrow> bool \<Rightarrow> nat \<Rightarrow>
   real \<times> real \<Rightarrow> real \<times> real" where
  "extpi_fill_sum_l_step EMPTY hash A cf m row pos_ii l st =
     (case st of (sum_l, val_ki) \<Rightarrow>
        let col_kl = csr_col_ind A ! l;
            val_kl = csr_val A ! l;
            pos_kl = (val_kl \<ge> 0)
        in if col_kl = row then
             ((if pos_ii \<noteq> pos_kl then sum_l + val_kl else sum_l), val_kl)
           else if cf ! col_kl = 1 then
             ((if pos_ii \<noteq> pos_kl
               then (if unordered_map_contains EMPTY hash col_kl m then sum_l + val_kl else sum_l)
               else sum_l), val_ki)
           else (sum_l, val_ki))"

definition extpi_fill_sum_l ::
  "nat \<Rightarrow> (nat \<Rightarrow> nat) \<Rightarrow> csr \<Rightarrow> int list \<Rightarrow> hash_map \<Rightarrow> nat \<Rightarrow> bool \<Rightarrow> nat \<Rightarrow> real \<times> real" where
  "extpi_fill_sum_l EMPTY hash A cf m row pos_ii col_ik =
     fold (extpi_fill_sum_l_step EMPTY hash A cf m row pos_ii)
       [csr_row_ptr A ! col_ik..<csr_row_ptr A ! (col_ik + 1)] (0, 0)"

text \<open>The second loop over the columns of the fine neighbour adds to the map.\<close>

definition extpi_fill_distribute_step ::
  "nat \<Rightarrow> (nat \<Rightarrow> nat) \<Rightarrow> csr \<Rightarrow> int list \<Rightarrow> bool \<Rightarrow> real \<Rightarrow> nat \<Rightarrow> hash_map \<Rightarrow> hash_map" where
  "extpi_fill_distribute_step EMPTY hash A cf pos_kk sum_l l m =
     (let col_kl = csr_col_ind A ! l in
      if cf ! col_kl \<noteq> 1 then m
      else
        let val_kl = csr_val A ! l; pos_kl = (val_kl \<ge> 0) in
        if pos_kk \<noteq> pos_kl then snd (unordered_map_add EMPTY hash col_kl (val_kl * sum_l) m)
        else m)"

text \<open>
  The body of the loop over the columns of the row. The division by \<open>sum_l\<close> has no
  guard; where the divisor is 0 the source yields an infinity or a NaN and HOL yields 0.
\<close>

definition extpi_fill_numeric_step ::
  "nat \<Rightarrow> (nat \<Rightarrow> nat) \<Rightarrow> csr \<Rightarrow> real list \<Rightarrow> bool list \<Rightarrow> int list \<Rightarrow> nat \<Rightarrow> bool \<Rightarrow> nat \<Rightarrow>
   real \<times> real \<times> hash_map \<Rightarrow> real \<times> real \<times> hash_map" where
  "extpi_fill_numeric_step EMPTY hash A diag S cf row pos_ii k st =
     (case st of (sum_k, sum_n, m) \<Rightarrow>
        let col_ik = csr_col_ind A ! k in
        if col_ik = row then (sum_k, sum_n, m)
        else
          let val_ik = csr_val A ! k;
              (sum_k1, m1) =
                (if S ! k = True \<and> cf ! col_ik = 2 then
                   (case extpi_fill_sum_l EMPTY hash A cf m row pos_ii col_ik of
                      (sum_l0, val_ki) \<Rightarrow>
                        let val_kk = diag ! col_ik;
                            sum_l = val_ik / sum_l0;
                            pos_kk = (val_kk \<ge> 0);
                            pos_ki = (val_ki \<ge> 0);
                            m' = fold (extpi_fill_distribute_step EMPTY hash A cf pos_kk sum_l)
                                   [csr_row_ptr A ! col_ik..<csr_row_ptr A ! (col_ik + 1)] m
                        in ((if pos_kk \<noteq> pos_ki then sum_k + val_ki * sum_l else sum_k), m'))
                 else (sum_k, m));
              (in_C_hat, m2) =
                (if cf ! col_ik = 1 then unordered_map_add EMPTY hash col_ik val_ik m1
                 else (False, m1))
          in (sum_k1, (if in_C_hat = False \<and> S ! k = False then sum_n + val_ik else sum_n), m2))"

text \<open>
  The lanes one after the other: each has its own \<open>sum_k\<close> and \<open>sum_n\<close> and leaves
  \<open>a_ii_tilde = sum_n + sum_k\<close>; the map is shared.
\<close>

definition extpi_fill_numeric_lane ::
  "nat \<Rightarrow> nat \<Rightarrow> (nat \<Rightarrow> nat) \<Rightarrow> csr \<Rightarrow> real list \<Rightarrow> bool list \<Rightarrow> int list \<Rightarrow> nat \<Rightarrow> bool \<Rightarrow>
   nat \<Rightarrow> real list \<times> hash_map \<Rightarrow> real list \<times> hash_map" where
  "extpi_fill_numeric_lane WFSIZE EMPTY hash A diag S cf row pos_ii lid st =
     (case st of (tildes, m) \<Rightarrow>
        case fold (extpi_fill_numeric_step EMPTY hash A diag S cf row pos_ii)
               (lane_indices WFSIZE lid (csr_row_ptr A ! row) (csr_row_ptr A ! (row + 1)))
               (0, 0, m) of
          (sum_k, sum_n, m') \<Rightarrow> (tildes @ [sum_n + sum_k], m'))"

text \<open>
  Modelled from the spec: \<open>hip_shfl_xor\<close> is declared in \<^verbatim>\<open>hip_utils.hpp\<close>, which is
  not part of the source file. It is one of the spec's warp-level primitives, by which the
  lanes of a wavefront combine the values they hold; \<open>hip_shfl_xor(v, i)\<close> yields in lane
  \<open>lid\<close> the value \<open>v\<close> of lane \<open>lid XOR i\<close>. The loop of the source is
  \<^verbatim>\<open>for(i = WFSIZE >> 1; i > 0; i >>= 1) a_ii_tilde += hip_shfl_xor(a_ii_tilde, i)\<close>.
\<close>

unbundle bit_operations_syntax

fun shfl_xor_sum :: "nat \<Rightarrow> real list \<Rightarrow> real list" where
  "shfl_xor_sum i vals =
     (if i = 0 then vals
      else shfl_xor_sum (i div 2) (map (\<lambda>lid. vals ! lid + vals ! (lid XOR i)) [0..<length vals]))"

declare shfl_xor_sum.simps [simp del]

text \<open>
  The divisor \<open>a_ii_tilde + val_ii\<close> of the final \<open>-1 / (a_ii_tilde + val_ii)\<close>, one per
  lane, with the map after the numerical part.
\<close>

definition extpi_fill_numeric ::
  "nat \<Rightarrow> nat \<Rightarrow> nat \<Rightarrow> (nat \<Rightarrow> nat) \<Rightarrow> bool \<Rightarrow> csr \<Rightarrow> real list \<Rightarrow> bool list \<Rightarrow> int list \<Rightarrow> nat \<Rightarrow>
   real list \<times> hash_map" where
  "extpi_fill_numeric WFSIZE HASHSIZE EMPTY hash FF1 A diag S cf row =
     (let val_ii = diag ! row;
          pos_ii = (val_ii \<ge> 0)
      in case fold (extpi_fill_numeric_lane WFSIZE EMPTY hash A diag S cf row pos_ii) [0..<WFSIZE]
                ([], extpi_fill_pattern WFSIZE HASHSIZE EMPTY hash FF1 A S cf row) of
           (tildes, m) \<Rightarrow>
             (map (\<lambda>a_ii_tilde. a_ii_tilde + val_ii) (shfl_xor_sum (WFSIZE div 2) tildes), m))"

text \<open>
  The last loop: every occupied slot of the map goes to the place in the row of P that
  the number of smaller keys in the table gives it.
\<close>

definition extpi_fill_write_step ::
  "nat \<Rightarrow> nat \<Rightarrow> hash_map \<Rightarrow> nat list \<Rightarrow> nat \<Rightarrow> real \<Rightarrow> nat \<Rightarrow> prolong \<Rightarrow> prolong" where
  "extpi_fill_write_step EMPTY HASHSIZE m f2c aj a_ii_tilde i P =
     (let col = hm_keys m ! i in
      if col = EMPTY then P
      else
        let idx = fold (\<lambda>cnt idx. if col > hm_keys m ! cnt then idx + 1 else idx) [0..<HASHSIZE] 0
        in P\<lparr>prolong_csr_col_ind := (prolong_csr_col_ind P)[aj + idx := f2c ! col],
             prolong_csr_val := (prolong_csr_val P)[aj + idx := a_ii_tilde * hm_vals m ! i]\<rparr>)"

definition extpi_fill_wavefront ::
  "nat \<Rightarrow> nat \<Rightarrow> nat \<Rightarrow> (nat \<Rightarrow> nat) \<Rightarrow> bool \<Rightarrow> csr \<Rightarrow> real list \<Rightarrow> nat list \<Rightarrow> bool list \<Rightarrow>
   int list \<Rightarrow> nat list \<Rightarrow> nat \<Rightarrow> prolong \<Rightarrow> prolong" where
  "extpi_fill_wavefront WFSIZE HASHSIZE EMPTY hash FF1 A diag csr_row_ptr_P S cf f2c row P =
     (if row \<ge> nrow A then P
      else if cf ! row = 1 then
        (let idx = csr_row_ptr_P ! row in
         P\<lparr>prolong_csr_col_ind := (prolong_csr_col_ind P)[idx := f2c ! row],
           prolong_csr_val := (prolong_csr_val P)[idx := 1]\<rparr>)
      else
        case extpi_fill_numeric WFSIZE HASHSIZE EMPTY hash FF1 A diag S cf row of
          (denominators, m) \<Rightarrow>
            let aj = csr_row_ptr_P ! row in
            fold (\<lambda>lid. fold (extpi_fill_write_step EMPTY HASHSIZE m f2c aj (- 1 / (denominators ! lid)))
                          (lane_indices WFSIZE lid 0 HASHSIZE))
              [0..<WFSIZE] P)"

definition kernel_csr_rs_extpi_interp_fill ::
  "nat \<Rightarrow> nat \<Rightarrow> nat \<Rightarrow> nat \<Rightarrow> (nat \<Rightarrow> nat) \<Rightarrow> bool \<Rightarrow> csr \<Rightarrow> real list \<Rightarrow> nat list \<Rightarrow>
   bool list \<Rightarrow> int list \<Rightarrow> nat list \<Rightarrow> prolong \<Rightarrow> prolong" where
  "kernel_csr_rs_extpi_interp_fill WFSIZE HASHSIZE grid EMPTY hash FF1 A diag csr_row_ptr_P S cf f2c P =
     fold (extpi_fill_wavefront WFSIZE HASHSIZE EMPTY hash FF1 A diag csr_row_ptr_P S cf f2c)
       [0..<grid] P"

section \<open>Extended+i fill: divisors: auxiliary notions\<close>

definition lane_group :: "nat \<Rightarrow> nat \<Rightarrow> nat \<Rightarrow> nat set" where
  "lane_group N j l = {l'. l' < N \<and> take_bit j l' = take_bit j l}"

definition dz_A :: csr where
  "dz_A = \<lparr>nrow = 3, csr_row_ptr = [0, 2, 4, 5], csr_col_ind = [0, 1, 1, 2, 2],
           csr_val = [-1, -1, 1, -1, 1]\<rparr>"

definition dz_diag :: "real list" where
  "dz_diag = [-1, 1, 1]"

definition dz_ss :: strong_state where
  "dz_ss = \<lparr>ss_omega = [1/2, 1/4, 1/2], ss_S = [False, False, False, False, False]\<rparr>"

definition dz_S :: "bool list" where
  "dz_S = [False, True, False, True, False]"

definition dz_omega :: "real list" where
  "dz_omega = [1/2, 5/4, 3/2]"

definition dz_cf :: "int list" where
  "dz_cf = [2, 2, 1]"

definition dd_A :: csr where
  "dd_A = \<lparr>nrow = 3, csr_row_ptr = [0, 3, 5, 6], csr_col_ind = [0, 1, 2, 0, 1, 2],
           csr_val = [1, -8, -1, -8, 1, 1]\<rparr>"

definition dd_diag :: "real list" where
  "dd_diag = [1, 1, 1]"

definition dd_ss :: strong_state where
  "dd_ss = \<lparr>ss_omega = [1/4, 1/2, 3/4], ss_S = [False, False, False, False, False, False]\<rparr>"

definition dd_S :: "bool list" where
  "dd_S = [False, True, False, True, False, False]"

definition dd_omega :: "real list" where
  "dd_omega = [5/4, 3/2, 3/4]"

definition dd_cf :: "int list" where
  "dd_cf = [2, 1, 2]"

definition start3 :: pmis_state where
  "start3 = \<lparr>pm_cf = [0, 0, 0], pm_workspace = [False, False, False], pm_undecided = False\<rparr>"

text \<open>The entries of the row of a fine neighbour that enter \<open>sum_l\<close>.\<close>

definition sum_l_term ::
  "nat \<Rightarrow> (nat \<Rightarrow> nat) \<Rightarrow> csr \<Rightarrow> int list \<Rightarrow> hash_map \<Rightarrow> nat \<Rightarrow> bool \<Rightarrow> nat \<Rightarrow> bool" where
  "sum_l_term EMPTY hash A cf m row pos_ii l \<longleftrightarrow>
     pos_ii \<noteq> (csr_val A ! l \<ge> 0) \<and>
     (csr_col_ind A ! l = row \<or>
      (cf ! (csr_col_ind A ! l) = 1 \<and> unordered_map_contains EMPTY hash (csr_col_ind A ! l) m))"

text \<open>The contributions \<open>sum_n + sum_k\<close> of the lanes of a row.\<close>

definition extpi_fill_tildes ::
  "nat \<Rightarrow> nat \<Rightarrow> nat \<Rightarrow> (nat \<Rightarrow> nat) \<Rightarrow> bool \<Rightarrow> csr \<Rightarrow> real list \<Rightarrow> bool list \<Rightarrow> int list \<Rightarrow> nat \<Rightarrow>
   real list" where
  "extpi_fill_tildes W H E hash FF1 A diag S cf row =
     fst (fold (extpi_fill_numeric_lane W E hash A diag S cf row (diag ! row \<ge> 0)) [0..<W]
            ([], extpi_fill_pattern W H E hash FF1 A S cf row))"

section \<open>Column order of the rows of P: auxiliary notions\<close>

text \<open>
  The invariant of linear probing: the probe path of every key in the table ends at the
  slot that holds it.
\<close>

definition table_inv :: "nat \<Rightarrow> (nat \<Rightarrow> nat) \<Rightarrow> nat list \<Rightarrow> bool" where
  "table_inv EMPTY hash keys \<longleftrightarrow>
     list_all (\<lambda>s. keys ! s = EMPTY \<or> find_slot EMPTY hash (keys ! s) keys = Some s)
       [0..<length keys]"

text \<open>
  A table of \<open>HASHSIZE\<close> slots that satisfies the invariant and holds only Coarse
  columns below \<open>n\<close>.
\<close>

definition map_ok :: "nat \<Rightarrow> (nat \<Rightarrow> nat) \<Rightarrow> nat \<Rightarrow> nat \<Rightarrow> int list \<Rightarrow> hash_map \<Rightarrow> bool" where
  "map_ok EMPTY hash HASHSIZE n cf m \<longleftrightarrow>
     length (hm_keys m) = HASHSIZE \<and> table_inv EMPTY hash (hm_keys m) \<and>
     list_all (\<lambda>k. k = EMPTY \<or> (k < n \<and> cf ! k = 1)) (hm_keys m)"

text \<open>
  The place of a column in the row of P: the number of slots of the table that hold a
  smaller key. \<open>table_count\<close> is the number of occupied slots.
\<close>

definition table_rank :: "nat list \<Rightarrow> nat \<Rightarrow> nat" where
  "table_rank keys col = length (filter (\<lambda>cnt. keys ! cnt < col) [0..<length keys])"

definition table_count :: "nat \<Rightarrow> nat list \<Rightarrow> nat" where
  "table_count EMPTY keys = length (filter (\<lambda>k. k \<noteq> EMPTY) keys)"

text \<open>
  A 3-row matrix whose row 0 stores its columns in the order 0, 2, 1, with what the
  classifier (\<open>eps = 1/4\<close>), the coarsener and the counting kernel of the direct
  interpolation make of it. \<open>us_f2c\<close> is the exclusive scan of the flags that the
  counting kernel leaves in \<open>f2c\<close>, \<open>us_row_ptr\<close> the scan of the counts.
\<close>

definition us_A :: csr where
  "us_A = \<lparr>nrow = 3, csr_row_ptr = [0, 3, 4, 5], csr_col_ind = [0, 2, 1, 1, 2],
           csr_val = [2, -1, -1, 1, 1]\<rparr>"

definition us_ss :: strong_state where
  "us_ss = \<lparr>ss_omega = [1/2, 1/4, 3/4], ss_S = [False, False, False, False, False]\<rparr>"

definition us_S :: "bool list" where
  "us_S = [False, True, True, False, False]"

definition us_omega :: "real list" where
  "us_omega = [1/2, 5/4, 7/4]"

definition us_cf :: "int list" where
  "us_cf = [2, 1, 1]"

definition us_count0 :: interp_count where
  "us_count0 = \<lparr>ic_Amin = [0, 0, 0], ic_Amax = [0, 0, 0], ic_row_nnz = [0, 0, 0],
                 ic_f2c = [0, 0, 0]\<rparr>"

definition us_Amin :: "real list" where
  "us_Amin = [- (1/5), 0, 0]"

definition us_Amax :: "real list" where
  "us_Amax = [0, 0, 0]"

definition us_f2c :: "nat list" where
  "us_f2c = [0, 0, 1]"

definition us_row_ptr :: "nat list" where
  "us_row_ptr = [0, 2, 3, 4]"

definition us_ec :: extpi_count where
  "us_ec = \<lparr>ec_row_nnz = [0, 0, 0], ec_state = [0, 0, 0]\<rparr>"

definition us_P0 :: prolong where
  "us_P0 = \<lparr>prolong_csr_col_ind = [0, 0, 0, 0], prolong_csr_val = [0, 0, 0, 0]\<rparr>"

section \<open>Proofs: the coarsening kernels\<close>

lemma fold_inv:
  assumes "P init" and "\<And>y t. y \<in> set ys \<Longrightarrow> P t \<Longrightarrow> P (f y t)"
  shows "P (fold f ys init)"
  using assms by (induction ys arbitrary: init) auto

lemma fold_establish:
  assumes "x \<in> set xs"
    and "\<And>y s. y \<in> set xs \<Longrightarrow> P s \<Longrightarrow> P (f y s)"
    and "\<And>y s. y \<in> set xs \<Longrightarrow> Q s \<Longrightarrow> P s \<Longrightarrow> Q (f y s)"
    and "\<And>s. P s \<Longrightarrow> Q (f x s)"
    and "P s"
  shows "Q (fold f xs s)"
proof -
  from assms(1) obtain ys zs where xs: "xs = ys @ x # zs" by (auto dest: split_list)
  have P1: "P (fold f ys s)"
    by (rule fold_inv [where P = P]) (use assms xs in auto)
  have Q1: "Q (f x (fold f ys s))" using P1 assms(4) by blast
  have P2: "P (f x (fold f ys s))" using P1 assms(2) xs by simp
  have "P (fold f zs (f x (fold f ys s))) \<and> Q (fold f zs (f x (fold f ys s)))"
    by (rule fold_inv [where P = "\<lambda>s. P s \<and> Q s"]) (use P2 Q1 assms xs in auto)
  then show ?thesis by (simp add: xs)
qed

lemma fold_upt_guard:
  assumes "\<And>r s. n \<le> r \<Longrightarrow> f r s = s" and "n \<le> g"
  shows "fold f [0..<g] s = fold f [0..<n] s"
proof -
  have id: "fold f [n..<g] t = t" for t
    by (rule fold_inv [where P = "\<lambda>u. u = t"]) (use assms in auto)
  have "[0..<g] = [0..<n] @ [n..<g]"
    using assms(2) upt_add_eq_append [of 0 n "g - n"] by simp
  then show ?thesis by (simp add: id)
qed

lemma lane_indices_bounds:
  "j \<in> set (lane_indices W lid rb re) \<Longrightarrow> rb \<le> j \<and> j < re"
  by (auto simp: lane_indices_def)

lemma lane_indices_cover:
  "0 < W \<Longrightarrow> rb \<le> j \<Longrightarrow> j < re \<Longrightarrow>
     (j - rb) mod W < W \<and> j \<in> set (lane_indices W ((j - rb) mod W) rb re)"
  by (auto simp: lane_indices_def)

lemma csr_wf_row:
  assumes "csr_wf A" "r < nrow A"
  shows "csr_row_ptr A ! r \<le> csr_row_ptr A ! (r + 1)"
    and "csr_row_ptr A ! (r + 1) \<le> length (csr_col_ind A)"
proof -
  have mono: "\<forall>i<nrow A. csr_row_ptr A ! i \<le> csr_row_ptr A ! (i + 1)"
    using assms(1) by (auto simp: csr_wf_def list_all_iff)
  show "csr_row_ptr A ! r \<le> csr_row_ptr A ! (r + 1)" using mono assms(2) by blast
  have "k \<le> nrow A \<Longrightarrow> i \<le> k \<Longrightarrow> csr_row_ptr A ! i \<le> csr_row_ptr A ! k" for i k
  proof (induction k)
    case 0 then show ?case by simp
  next
    case (Suc k)
    show ?case
    proof (cases "i = Suc k")
      case True then show ?thesis by simp
    next
      case False
      then have "csr_row_ptr A ! i \<le> csr_row_ptr A ! k" using Suc by simp
      moreover have "csr_row_ptr A ! k \<le> csr_row_ptr A ! Suc k" using mono Suc.prems by simp
      ultimately show ?thesis by simp
    qed
  qed
  from this [of "nrow A" "r + 1"] show "csr_row_ptr A ! (r + 1) \<le> length (csr_col_ind A)"
    using assms by (simp add: csr_wf_def)
qed

lemma csr_wf_col:
  "csr_wf A \<Longrightarrow> j < length (csr_col_ind A) \<Longrightarrow> csr_col_ind A ! j < nrow A"
  by (auto simp: csr_wf_def list_all_length)

lemma unassigned_prefix:
  assumes "length (pm_cf st) = n" "length (pm_workspace st) = n"
  shows "k \<le> n \<Longrightarrow>
     (let s = fold (unassigned_to_coarse_thread n omega) [0..<k] st in
      length (pm_cf s) = n \<and> length (pm_workspace s) = n \<and> pm_undecided s = pm_undecided st \<and>
      (\<forall>i<n. pm_cf s ! i = (if i < k then (if pm_cf st ! i = 0 then (if omega ! i \<ge> 1 then 1 else 2) else pm_cf st ! i) else pm_cf st ! i)) \<and>
      (\<forall>i<n. pm_workspace s ! i = (if i < k then (pm_cf st ! i = 0 \<and> omega ! i \<ge> 1) else pm_workspace st ! i)))"
proof (induction k)
  case 0
  then show ?case using assms by simp
next
  case (Suc k)
  then show ?case
    by (auto simp: Let_def unassigned_to_coarse_thread_def nth_list_update less_Suc_eq)
qed

lemma kernel_unassigned:
  fixes omega :: "real list"
  assumes "n \<le> grid" "length (pm_cf st) = n" "length (pm_workspace st) = n"
  defines "s \<equiv> kernel_csr_rs_pmis_unassigned_to_coarse grid n omega st"
  shows "pm_cf s = map (\<lambda>i. if pm_cf st ! i = 0 then (if omega ! i \<ge> 1 then 1 else 2) else pm_cf st ! i) [0..<n]"
    and "pm_workspace s = map (\<lambda>i. pm_cf st ! i = 0 \<and> omega ! i \<ge> 1) [0..<n]"
    and "pm_undecided s = pm_undecided st"
proof -
  have s: "s = fold (unassigned_to_coarse_thread n omega) [0..<n] st"
    unfolding s_def kernel_csr_rs_pmis_unassigned_to_coarse_def
    by (rule fold_upt_guard) (simp_all add: unassigned_to_coarse_thread_def assms(1))
  note p = unassigned_prefix [OF assms(2,3), of n omega, simplified Let_def, folded s, simplified]
  show "pm_cf s = map (\<lambda>i. if pm_cf st ! i = 0 then (if omega ! i \<ge> 1 then 1 else 2) else pm_cf st ! i) [0..<n]"
    by (rule nth_equalityI) (use p in auto)
  show "pm_workspace s = map (\<lambda>i. pm_cf st ! i = 0 \<and> omega ! i \<ge> 1) [0..<n]"
    by (rule nth_equalityI) (use p in auto)
  show "pm_undecided s = pm_undecided st" using p by simp
qed

lemma nth_upd: "x < length c \<Longrightarrow> c[i := v] ! x = (if i = x then v else c ! x)"
  by (cases "i = x") auto

lemma correct_entry_length [simp]:
  "length (correct_coarse_entry A omega S ws row j c) = length c"
  by (simp add: correct_coarse_entry_def Let_def)

lemma correct_entry_zero:
  "c ! x = 0 \<Longrightarrow> x < length c \<Longrightarrow> correct_coarse_entry A omega S ws row j c ! x = 0"
  by (simp add: correct_coarse_entry_def Let_def nth_upd)

lemma correct_entry_sound:
  assumes "row < nrow A" "ws ! row" "j \<in> row_range A row"
    and "\<forall>x<length c. c ! x = c0 ! x \<or> (c ! x = 0 \<and> beaten A omega S ws x)"
    and "x < length c"
  shows "correct_coarse_entry A omega S ws row j c ! x = c0 ! x \<or>
         (correct_coarse_entry A omega S ws row j c ! x = 0 \<and> beaten A omega S ws x)"
proof (cases "correct_coarse_entry A omega S ws row j c ! x = c ! x")
  case True
  then show ?thesis using assms(4,5) by auto
next
  case False
  then have "correct_coarse_entry A omega S ws row j c ! x = 0 \<and> beaten A omega S ws x"
    using assms(1,2,3,5) unfolding correct_coarse_entry_def Let_def beaten_def
    by (auto simp: nth_upd split: if_splits)
  then show ?thesis by simp
qed

lemma correct_entry_hit:
  assumes "S ! j" "ws ! (csr_col_ind A ! j)" "x < length c"
    and "(csr_col_ind A ! j = x \<and> omega ! r > omega ! x) \<or>
         (r = x \<and> omega ! x < omega ! (csr_col_ind A ! j))"
  shows "correct_coarse_entry A omega S ws r j c ! x = 0"
  using assms by (auto simp: correct_coarse_entry_def Let_def nth_upd)

lemma correct_lane_inv:
  assumes "arb_inv A omega S st s"
  shows "arb_inv A omega S st (correct_coarse_lane W A omega S row lid s)"
proof (cases "row < nrow A \<and> pm_workspace s ! row")
  case False
  then show ?thesis using assms by (auto simp: correct_coarse_lane_def)
next
  case True
  let ?js = "lane_indices W lid (csr_row_ptr A ! row) (csr_row_ptr A ! (row + 1))"
  let ?P = "\<lambda>c. length c = length (pm_cf st) \<and>
     (\<forall>x<length (pm_cf st). c ! x = pm_cf st ! x \<or> (c ! x = 0 \<and> beaten A omega S (pm_workspace st) x))"
  have ws: "pm_workspace s = pm_workspace st" using assms by (simp add: arb_inv_def)
  have "?P (fold (correct_coarse_entry A omega S (pm_workspace s) row) ?js (pm_cf s))"
  proof (rule fold_inv [where P = ?P])
    show "?P (pm_cf s)" using assms by (simp add: arb_inv_def)
  next
    fix j c assume j: "j \<in> set ?js" and c: "?P c"
    have jr: "j \<in> row_range A row"
      using lane_indices_bounds [OF j] by (simp add: row_range_def)
    show "?P (correct_coarse_entry A omega S (pm_workspace s) row j c)"
      using correct_entry_sound [of row A "pm_workspace st" j c "pm_cf st" omega S] True jr c
      by (simp add: ws)
  qed
  then show ?thesis using True assms by (simp add: correct_coarse_lane_def arb_inv_def)
qed

lemma correct_lane_zero:
  assumes "pm_cf s ! x = 0" "x < length (pm_cf s)"
  shows "pm_cf (correct_coarse_lane W A omega S row lid s) ! x = 0
     \<and> length (pm_cf (correct_coarse_lane W A omega S row lid s)) = length (pm_cf s)"
proof -
  have "fold (correct_coarse_entry A omega S ws row) js (pm_cf s) ! x = 0 \<and>
        length (fold (correct_coarse_entry A omega S ws row) js (pm_cf s)) = length (pm_cf s)" for ws js
    by (rule fold_inv [where P = "\<lambda>c. c ! x = 0 \<and> length c = length (pm_cf s)"])
       (use assms in \<open>auto simp: correct_entry_zero\<close>)
  then show ?thesis using assms by (simp add: correct_coarse_lane_def)
qed

lemma correct_lane_hit:
  assumes "row < nrow A" "pm_workspace s ! row" "j \<in> set (lane_indices W lid (csr_row_ptr A ! row) (csr_row_ptr A ! (row + 1)))"
    and "S ! j" "pm_workspace s ! (csr_col_ind A ! j)" "x < length (pm_cf s)"
    and "(csr_col_ind A ! j = x \<and> omega ! row > omega ! x) \<or>
         (row = x \<and> omega ! x < omega ! (csr_col_ind A ! j))"
  shows "pm_cf (correct_coarse_lane W A omega S row lid s) ! x = 0"
proof -
  let ?js = "lane_indices W lid (csr_row_ptr A ! row) (csr_row_ptr A ! (row + 1))"
  have "fold (correct_coarse_entry A omega S (pm_workspace s) row) ?js (pm_cf s) ! x = 0"
    by (rule fold_establish [where x = j and P = "\<lambda>c. length c = length (pm_cf s)"
          and Q = "\<lambda>c. c ! x = 0"])
       (use assms in \<open>auto simp: correct_entry_zero intro: correct_entry_hit\<close>)
  then show ?thesis using assms(1,2) by (simp add: correct_coarse_lane_def)
qed

lemma kernel_correct_inv:
  "arb_inv A omega S st (kernel_csr_rs_pmis_correct_coarse W grid A omega S st)"
  unfolding kernel_csr_rs_pmis_correct_coarse_def
  by (rule fold_inv [where P = "arb_inv A omega S st"], simp add: arb_inv_def,
      rule fold_inv [where P = "arb_inv A omega S st"], assumption,
      rule correct_lane_inv)

lemma kernel_correct_complete:
  assumes "0 < W" "nrow A \<le> grid" "x < length (pm_cf st)"
    and "beaten A omega S (pm_workspace st) x"
  shows "pm_cf (kernel_csr_rs_pmis_correct_coarse W grid A omega S st) ! x = 0"
proof -
  from assms(4) obtain r j where r: "r < nrow A" "pm_workspace st ! r"
    and j: "j \<in> row_range A r" "S ! j" "pm_workspace st ! (csr_col_ind A ! j)"
    and o: "(csr_col_ind A ! j = x \<and> omega ! r > omega ! x) \<or>
            (r = x \<and> omega ! x < omega ! (csr_col_ind A ! j))"
    unfolding beaten_def by blast
  let ?rb = "csr_row_ptr A ! r" and ?re = "csr_row_ptr A ! (r + 1)"
  let ?lid = "(j - ?rb) mod W"
  have lid: "?lid < W" "j \<in> set (lane_indices W ?lid ?rb ?re)"
    using lane_indices_cover [of W ?rb j ?re] assms(1) j(1) by (auto simp: row_range_def)
  let ?P = "arb_inv A omega S st" and ?Q = "\<lambda>s. pm_cf s ! x = 0"
  have keep: "?Q (correct_coarse_lane W A omega S row l s)" if "?P s" "?Q s" for row l s
    using correct_lane_zero [of s x W A omega S row l] that assms(3) by (simp add: arb_inv_def)
  have row_inv: "?P (fold (correct_coarse_lane W A omega S row) [0..<W] s)" if "?P s" for row s
    by (rule fold_inv [where P = ?P]) (use that in \<open>auto intro: correct_lane_inv\<close>)
  have row_keep: "?Q (fold (correct_coarse_lane W A omega S row) [0..<W] s)" if "?P s" "?Q s" for row s
    using fold_inv [where P = "\<lambda>s. ?P s \<and> ?Q s" and f = "correct_coarse_lane W A omega S row"
        and ys = "[0..<W]" and init = s] that keep correct_lane_inv by blast
  have hit: "?Q (fold (correct_coarse_lane W A omega S r) [0..<W] s)" if "?P s" for s
  proof (rule fold_establish [where x = ?lid and P = ?P and Q = ?Q])
    show "?lid \<in> set [0..<W]" using lid(1) by simp
    show "?P s" by fact
    show "\<And>y s. ?P s \<Longrightarrow> ?P (correct_coarse_lane W A omega S r y s)" by (rule correct_lane_inv)
    show "\<And>y s. ?Q s \<Longrightarrow> ?P s \<Longrightarrow> ?Q (correct_coarse_lane W A omega S r y s)" by (rule keep)
    show "\<And>s. ?P s \<Longrightarrow> ?Q (correct_coarse_lane W A omega S r ?lid s)"
      using correct_lane_hit [of r A _ j W ?lid S x omega] r j o lid(2) assms(3)
      by (simp add: arb_inv_def)
  qed
  show ?thesis
    unfolding kernel_csr_rs_pmis_correct_coarse_def
  proof (rule fold_establish [where x = r and P = ?P and Q = ?Q])
    show "r \<in> set [0..<grid]" using r(1) assms(2) by simp
    show "?P st" by (simp add: arb_inv_def)
  qed (use row_inv row_keep hit in auto)
qed

lemma kernel_correct:
  fixes omega :: "real list" and S :: "bool list"
  assumes "0 < W" "nrow A \<le> grid" "length (pm_cf st) = nrow A"
  defines "s \<equiv> kernel_csr_rs_pmis_correct_coarse W grid A omega S st"
  shows "pm_cf s = map (\<lambda>x. if beaten A omega S (pm_workspace st) x then 0 else pm_cf st ! x) [0..<nrow A]"
    and "pm_workspace s = pm_workspace st"
    and "pm_undecided s = pm_undecided st"
proof -
  have inv: "arb_inv A omega S st s" unfolding s_def by (rule kernel_correct_inv)
  show "pm_workspace s = pm_workspace st" "pm_undecided s = pm_undecided st"
    using inv by (simp_all add: arb_inv_def)
  show "pm_cf s = map (\<lambda>x. if beaten A omega S (pm_workspace st) x then 0 else pm_cf st ! x) [0..<nrow A]"
  proof (rule nth_equalityI)
    show "length (pm_cf s) = length (map (\<lambda>x. if beaten A omega S (pm_workspace st) x then 0 else pm_cf st ! x) [0..<nrow A])"
      using inv assms(3) by (simp add: arb_inv_def)
  next
    fix x assume "x < length (pm_cf s)"
    then have x: "x < nrow A" using inv assms(3) by (simp add: arb_inv_def)
    show "pm_cf s ! x = map (\<lambda>x. if beaten A omega S (pm_workspace st) x then 0 else pm_cf st ! x) [0..<nrow A] ! x"
    proof (cases "beaten A omega S (pm_workspace st) x")
      case True
      then show ?thesis
        using kernel_correct_complete [OF assms(1,2), of x st omega S] x assms(3) by (simp add: s_def)
    next
      case False
      then show ?thesis using inv x assms(3) by (auto simp: arb_inv_def)
    qed
  qed
qed

lemma edges_loop_result:
  "coarse_edges_to_fine_loop A S x js c =
     (if \<exists>j\<in>set js. S ! j \<and> c ! (csr_col_ind A ! j) = 1 then c[x := 2] else c)"
  by (induction js) auto

lemma fine_inv_coarse:
  "fine_inv A S st s \<Longrightarrow> c < length (pm_cf st) \<Longrightarrow> pm_cf s ! c = 1 \<longleftrightarrow> pm_cf st ! c = 1"
  by (auto simp: fine_inv_def)

lemma row_range_col:
  assumes "csr_wf A" "x < nrow A" "j \<in> row_range A x"
  shows "csr_col_ind A ! j < nrow A"
  using csr_wf_row(2) [OF assms(1,2)] csr_wf_col [OF assms(1), of j] assms(3)
  by (simp add: row_range_def)

lemma edges_lane_inv:
  assumes "csr_wf A" "length (pm_cf st) = nrow A" "fine_inv A S st s"
  shows "fine_inv A S st (coarse_edges_to_fine_lane W A S row lid s)"
proof (cases "row < nrow A \<and> pm_cf s ! row = 0 \<and>
    (\<exists>j\<in>set (lane_indices W lid (csr_row_ptr A ! row) (csr_row_ptr A ! (row + 1))).
        S ! j \<and> pm_cf s ! (csr_col_ind A ! j) = 1)")
  case False
  then have "coarse_edges_to_fine_lane W A S row lid s = s \<or>
     coarse_edges_to_fine_lane W A S row lid s = s\<lparr>pm_cf := pm_cf s\<rparr>"
    by (auto simp: coarse_edges_to_fine_lane_def edges_loop_result)
  then show ?thesis using assms(3) by auto
next
  case True
  then obtain j where j: "j \<in> row_range A row" "S ! j" "pm_cf s ! (csr_col_ind A ! j) = 1"
    using lane_indices_bounds by (fastforce simp: row_range_def)
  have "csr_col_ind A ! j < nrow A" using row_range_col [OF assms(1) _ j(1)] True by simp
  then have "pm_cf st ! (csr_col_ind A ! j) = 1"
    using fine_inv_coarse [OF assms(3)] j(3) assms(2) by simp
  then have cn: "coarse_neighbour A S (pm_cf st) row"
    using j by (auto simp: coarse_neighbour_def)
  have st0: "pm_cf st ! row = 0" using assms(2,3) True by (auto simp: fine_inv_def)
  have eq: "coarse_edges_to_fine_lane W A S row lid s = s\<lparr>pm_cf := (pm_cf s)[row := 2]\<rparr>"
    using True by (simp add: coarse_edges_to_fine_lane_def edges_loop_result)
  show ?thesis
    unfolding eq using assms(2,3) cn st0 True
    by (auto simp: fine_inv_def nth_upd)
qed

lemma edges_lane_keep:
  assumes "pm_cf s ! x = 2" "x < length (pm_cf s)"
  shows "pm_cf (coarse_edges_to_fine_lane W A S row lid s) ! x = 2"
  using assms by (auto simp: coarse_edges_to_fine_lane_def edges_loop_result nth_upd)

lemma kernel_edges_inv:
  assumes "csr_wf A" "length (pm_cf st) = nrow A"
  shows "fine_inv A S st (kernel_csr_rs_pmis_coarse_edges_to_fine W grid A S st)"
  unfolding kernel_csr_rs_pmis_coarse_edges_to_fine_def
  by (rule fold_inv [where P = "fine_inv A S st"], simp add: fine_inv_def,
      rule fold_inv [where P = "fine_inv A S st"], assumption,
      rule edges_lane_inv [OF assms])

lemma kernel_edges_complete:
  assumes "csr_wf A" "length (pm_cf st) = nrow A" "0 < W" "nrow A \<le> grid" "x < nrow A"
    and "pm_cf st ! x = 0" "coarse_neighbour A S (pm_cf st) x"
  shows "pm_cf (kernel_csr_rs_pmis_coarse_edges_to_fine W grid A S st) ! x = 2"
proof -
  from assms(7) obtain j where j: "j \<in> row_range A x" "S ! j" "pm_cf st ! (csr_col_ind A ! j) = 1"
    unfolding coarse_neighbour_def by blast
  let ?rb = "csr_row_ptr A ! x" and ?re = "csr_row_ptr A ! (x + 1)"
  let ?lid = "(j - ?rb) mod W"
  have lid: "?lid < W" "j \<in> set (lane_indices W ?lid ?rb ?re)"
    using lane_indices_cover [of W ?rb j ?re] assms(3) j(1) by (auto simp: row_range_def)
  have cj: "csr_col_ind A ! j < nrow A" using row_range_col [OF assms(1,5) j(1)] .
  let ?P = "fine_inv A S st" and ?Q = "\<lambda>s. pm_cf s ! x = 2"
  note linv = edges_lane_inv [OF assms(1,2)]
  have keep: "?Q (coarse_edges_to_fine_lane W A S row l s)" if "?P s" "?Q s" for row l s
    using edges_lane_keep [of s x W A S row l] that assms(2,5) by (simp add: fine_inv_def)
  have row_inv: "?P (fold (coarse_edges_to_fine_lane W A S row) [0..<W] s)" if "?P s" for row s
    by (rule fold_inv [where P = ?P]) (use that in \<open>auto intro: linv\<close>)
  have row_keep: "?Q (fold (coarse_edges_to_fine_lane W A S row) [0..<W] s)" if "?P s" "?Q s" for row s
    using fold_inv [where P = "\<lambda>s. ?P s \<and> ?Q s" and f = "coarse_edges_to_fine_lane W A S row"
        and ys = "[0..<W]" and init = s] that keep linv by blast
  have step: "?Q (coarse_edges_to_fine_lane W A S x ?lid s)" if "?P s" for s
  proof -
    have c1: "pm_cf s ! (csr_col_ind A ! j) = 1"
      using fine_inv_coarse [OF that, of "csr_col_ind A ! j"] cj j(3) assms(2) by simp
    have "pm_cf s ! x = 0 \<or> pm_cf s ! x = 2"
      using that assms(2,5,6) by (auto simp: fine_inv_def)
    moreover have len: "x < length (pm_cf s)" using that assms(2,5) by (simp add: fine_inv_def)
    ultimately show ?thesis
      using lid(2) j(2) c1 assms(5)
      by (auto simp: coarse_edges_to_fine_lane_def edges_loop_result nth_upd)
  qed
  have hit: "?Q (fold (coarse_edges_to_fine_lane W A S x) [0..<W] s)" if "?P s" for s
  proof (rule fold_establish [where x = ?lid and P = ?P and Q = ?Q])
    show "?lid \<in> set [0..<W]" using lid(1) by simp
    show "?P s" by fact
  qed (use linv keep step in auto)
  show ?thesis
    unfolding kernel_csr_rs_pmis_coarse_edges_to_fine_def
  proof (rule fold_establish [where x = x and P = ?P and Q = ?Q])
    show "x \<in> set [0..<grid]" using assms(4,5) by simp
    show "?P st" by (simp add: fine_inv_def)
  qed (use row_inv row_keep hit in auto)
qed

lemma kernel_edges:
  fixes S :: "bool list"
  assumes "csr_wf A" "length (pm_cf st) = nrow A" "0 < W" "nrow A \<le> grid"
  defines "s \<equiv> kernel_csr_rs_pmis_coarse_edges_to_fine W grid A S st"
  shows "pm_cf s = map (\<lambda>x. if pm_cf st ! x = 0 \<and> coarse_neighbour A S (pm_cf st) x then 2
                              else pm_cf st ! x) [0..<nrow A]"
    and "pm_workspace s = pm_workspace st"
    and "pm_undecided s = pm_undecided st"
proof -
  have inv: "fine_inv A S st s" unfolding s_def by (rule kernel_edges_inv [OF assms(1,2)])
  show "pm_workspace s = pm_workspace st" "pm_undecided s = pm_undecided st"
    using inv by (simp_all add: fine_inv_def)
  show "pm_cf s = map (\<lambda>x. if pm_cf st ! x = 0 \<and> coarse_neighbour A S (pm_cf st) x then 2
                              else pm_cf st ! x) [0..<nrow A]"
  proof (rule nth_equalityI)
    show "length (pm_cf s) = length (map (\<lambda>x. if pm_cf st ! x = 0 \<and> coarse_neighbour A S (pm_cf st) x then 2
                              else pm_cf st ! x) [0..<nrow A])"
      using inv assms(2) by (simp add: fine_inv_def)
  next
    fix x assume "x < length (pm_cf s)"
    then have x: "x < nrow A" using inv assms(2) by (simp add: fine_inv_def)
    show "pm_cf s ! x = map (\<lambda>x. if pm_cf st ! x = 0 \<and> coarse_neighbour A S (pm_cf st) x then 2
                              else pm_cf st ! x) [0..<nrow A] ! x"
    proof (cases "pm_cf st ! x = 0 \<and> coarse_neighbour A S (pm_cf st) x")
      case True
      then show ?thesis
        using kernel_edges_complete [OF assms(1,2,3,4) x, of S] x by (simp add: s_def)
    next
      case False
      then show ?thesis using inv x assms(2) by (auto simp: fine_inv_def)
    qed
  qed
qed

lemma check_prefix:
  "(let s = fold (check_undecided_thread n) [0..<k] st in
      pm_cf s = pm_cf st \<and> pm_workspace s = pm_workspace st \<and>
      pm_undecided s = (pm_undecided st \<or> (\<exists>i<k. i < n \<and> pm_cf st ! i = 0)))"
  by (induction k) (auto simp: Let_def check_undecided_thread_def less_Suc_eq)

lemma kernel_check:
  fixes st :: pmis_state
  assumes "n \<le> grid"
  defines "s \<equiv> kernel_csr_rs_pmis_check_undecided grid n st"
  shows "pm_cf s = pm_cf st" "pm_workspace s = pm_workspace st"
    and "pm_undecided s = (pm_undecided st \<or> (\<exists>i<n. pm_cf st ! i = 0))"
  using check_prefix [of n grid st] assms(1)
  unfolding s_def kernel_csr_rs_pmis_check_undecided_def Let_def
  by auto

lemma pmis_round_closed:
  fixes omega :: "real list" and S :: "bool list"
  assumes "0 < W" "nrow A \<le> grid" "pmis_wf A omega S st"
  defines "n \<equiv> nrow A"
  defines "ws1 \<equiv> map (flagged omega st) [0..<n]"
  defines "cf1 \<equiv> map (promote_cf omega (pm_cf st)) [0..<n]"
  defines "cf2 \<equiv> map (\<lambda>x. if beaten A omega S ws1 x then 0 else promote_cf omega (pm_cf st) x) [0..<n]"
  defines "cf3 \<equiv> map (\<lambda>x. if cf2 ! x = 0 \<and> coarse_neighbour A S cf2 x then 2 else cf2 ! x) [0..<n]"
  shows "pmis_round W grid A omega S st =
           \<lparr>pm_cf = cf3, pm_workspace = ws1, pm_undecided = (\<exists>i<n. cf3 ! i = 0)\<rparr>"
    and "kernel_csr_rs_pmis_unassigned_to_coarse grid n omega st = st\<lparr>pm_cf := cf1, pm_workspace := ws1\<rparr>"
    and "kernel_csr_rs_pmis_correct_coarse W grid A omega S (st\<lparr>pm_cf := cf1, pm_workspace := ws1\<rparr>)
           = st\<lparr>pm_cf := cf2, pm_workspace := ws1\<rparr>"
    and "kernel_csr_rs_pmis_coarse_edges_to_fine W grid A S (st\<lparr>pm_cf := cf2, pm_workspace := ws1\<rparr>)
           = st\<lparr>pm_cf := cf3, pm_workspace := ws1\<rparr>"
proof -
  have wf: "csr_wf A" "length (pm_cf st) = n" "length (pm_workspace st) = n"
    using assms(3) by (simp_all add: pmis_wf_def n_def)
  have ng: "n \<le> grid" using assms(2) by (simp add: n_def)
  let ?st1 = "st\<lparr>pm_cf := cf1, pm_workspace := ws1\<rparr>"
  let ?st2 = "st\<lparr>pm_cf := cf2, pm_workspace := ws1\<rparr>"
  let ?st3 = "st\<lparr>pm_cf := cf3, pm_workspace := ws1\<rparr>"
  show k1: "kernel_csr_rs_pmis_unassigned_to_coarse grid n omega st = ?st1"
    using kernel_unassigned [OF ng wf(2,3), of omega]
    by (intro pmis_state.equality)
       (simp_all add: cf1_def ws1_def flagged_def [abs_def] promote_cf_def [abs_def])
  have l1: "length (pm_cf ?st1) = nrow A" by (simp add: cf1_def n_def)
  show k2: "kernel_csr_rs_pmis_correct_coarse W grid A omega S ?st1 = ?st2"
    using kernel_correct [OF assms(1,2) l1, of omega S]
    by (intro pmis_state.equality) (simp_all add: cf2_def cf1_def n_def cong: map_cong)
  have l2: "length (pm_cf ?st2) = nrow A" by (simp add: cf2_def n_def)
  show k3: "kernel_csr_rs_pmis_coarse_edges_to_fine W grid A S ?st2 = ?st3"
    using kernel_edges [OF wf(1) l2 assms(1,2), of S]
    by (intro pmis_state.equality) (simp_all add: cf3_def n_def)
  have k4: "kernel_csr_rs_pmis_check_undecided grid n (?st3\<lparr>pm_undecided := False\<rparr>)
      = \<lparr>pm_cf = cf3, pm_workspace = ws1, pm_undecided = (\<exists>i<n. cf3 ! i = 0)\<rparr>"
    using kernel_check [OF ng, of "?st3\<lparr>pm_undecided := False\<rparr>"]
    by (intro pmis_state.equality) simp_all
  show "pmis_round W grid A omega S st =
           \<lparr>pm_cf = cf3, pm_workspace = ws1, pm_undecided = (\<exists>i<n. cf3 ! i = 0)\<rparr>"
    unfolding pmis_round_def Let_def using k1 k2 k3 k4 by (simp add: n_def)
qed

lemma beaten_flagsD:
  assumes "csr_wf A" "x < nrow A"
    and "beaten A omega S (map (flagged omega st) [0..<nrow A]) x"
  shows "flagged omega st x \<and>
     (\<exists>y<nrow A. flagged omega st y \<and> omega ! x < omega ! y \<and> (strong_edge A S x y \<or> strong_edge A S y x))"
proof -
  let ?ws = "map (flagged omega st) [0..<nrow A]"
  from assms(3) obtain r j where r: "r < nrow A" "?ws ! r"
    and j: "j \<in> row_range A r" "S ! j" "?ws ! (csr_col_ind A ! j)"
    and o: "(csr_col_ind A ! j = x \<and> omega ! r > omega ! x) \<or>
            (r = x \<and> omega ! x < omega ! (csr_col_ind A ! j))"
    unfolding beaten_def by blast
  have c: "csr_col_ind A ! j < nrow A" using row_range_col [OF assms(1) r(1) j(1)] .
  have fr: "flagged omega st r" using r by simp
  have fc: "flagged omega st (csr_col_ind A ! j)" using j(3) c by simp
  have e: "strong_edge A S r (csr_col_ind A ! j)" using j by (auto simp: strong_edge_def)
  from o show ?thesis
  proof
    assume "csr_col_ind A ! j = x \<and> omega ! r > omega ! x"
    then show ?thesis using fr fc e r(1) by auto
  next
    assume "r = x \<and> omega ! x < omega ! (csr_col_ind A ! j)"
    then show ?thesis using fr fc e c by auto
  qed
qed

lemma beaten_flagsI:
  assumes "x < nrow A" "y < nrow A" "flagged omega st x" "flagged omega st y"
    and "strong_edge A S x y" "omega ! x \<noteq> omega ! y"
  shows "beaten A omega S (map (flagged omega st) [0..<nrow A]) x \<or>
         beaten A omega S (map (flagged omega st) [0..<nrow A]) y"
proof -
  from assms(5) obtain j where j: "j \<in> row_range A x" "S ! j" "csr_col_ind A ! j = y"
    by (auto simp: strong_edge_def)
  show ?thesis
  proof (cases "omega ! x < omega ! y")
    case True
    then have "beaten A omega S (map (flagged omega st) [0..<nrow A]) x"
      unfolding beaten_def using assms(1-4) j by (intro exI [of _ x]) auto
    then show ?thesis ..
  next
    case False
    then have "omega ! x > omega ! y" using assms(6) by simp
    then have "beaten A omega S (map (flagged omega st) [0..<nrow A]) y"
      unfolding beaten_def using assms(1-4) j by (intro exI [of _ x]) auto
    then show ?thesis ..
  qed
qed

text \<open>The round, row by row.\<close>

lemma pmis_round_nth:
  fixes omega :: "real list" and S :: "bool list"
  assumes "0 < W" "nrow A \<le> grid" "pmis_wf A omega S st"
  defines "st' \<equiv> pmis_round W grid A omega S st"
  defines "ws \<equiv> map (flagged omega st) [0..<nrow A]"
  defines "c2 \<equiv> map (\<lambda>x. if beaten A omega S ws x then 0 else promote_cf omega (pm_cf st) x) [0..<nrow A]"
  shows "pm_workspace st' = ws"
    and "length (pm_cf st') = nrow A"
    and "pm_undecided st' \<longleftrightarrow> (\<exists>i<nrow A. pm_cf st' ! i = 0)"
    and "\<And>x. x < nrow A \<Longrightarrow>
           pm_cf st' ! x = (if c2 ! x = 0 \<and> coarse_neighbour A S c2 x then 2 else c2 ! x)"
  using pmis_round_closed(1) [OF assms(1-3)]
  unfolding st'_def ws_def c2_def
  by simp_all

lemma pmis_round_wf:
  assumes "0 < W" "nrow A \<le> grid" "pmis_wf A omega S st"
  shows "pmis_wf A omega S (pmis_round W grid A omega S st)"
  using pmis_round_nth(1,2) [OF assms] assms(3) by (simp add: pmis_wf_def)

lemma coarse_neighbour_cong:
  assumes "csr_wf A" "x < nrow A" "\<And>c. c < nrow A \<Longrightarrow> (c1 ! c = 1) = (c2 ! c = (1::int))"
  shows "coarse_neighbour A S c1 x = coarse_neighbour A S c2 x"
  unfolding coarse_neighbour_def using row_range_col [OF assms(1,2)] assms(3) by blast

lemma pmis_round_cases:
  fixes omega :: "real list" and S :: "bool list"
  assumes "0 < W" "nrow A \<le> grid" "pmis_wf A omega S st" "x < nrow A"
  defines "st' \<equiv> pmis_round W grid A omega S st"
  defines "b \<equiv> beaten A omega S (map (flagged omega st) [0..<nrow A]) x"
  shows "pm_cf st ! x \<noteq> 0 \<Longrightarrow> pm_cf st' ! x = pm_cf st ! x"
    and "pm_cf st ! x = 0 \<Longrightarrow> \<not> omega ! x \<ge> 1 \<Longrightarrow> pm_cf st' ! x = 2"
    and "flagged omega st x \<Longrightarrow> \<not> b \<Longrightarrow> pm_cf st' ! x = 1"
    and "flagged omega st x \<Longrightarrow> b \<Longrightarrow> pm_cf st' ! x = 0 \<or> pm_cf st' ! x = 2"
    and "pm_cf st' ! x = 0 \<Longrightarrow> flagged omega st x \<and> b \<and> \<not> coarse_neighbour A S (pm_cf st') x"
proof -
  let ?ws = "map (flagged omega st) [0..<nrow A]"
  let ?c2 = "map (\<lambda>x. if beaten A omega S ?ws x then 0 else promote_cf omega (pm_cf st) x) [0..<nrow A]"
  have wf: "csr_wf A" using assms(3) by (simp add: pmis_wf_def)
  have c2: "?c2 ! y = (if beaten A omega S ?ws y then 0 else promote_cf omega (pm_cf st) y)"
    if "y < nrow A" for y using that by simp
  have r: "pm_cf st' ! y = (if ?c2 ! y = 0 \<and> coarse_neighbour A S ?c2 y then 2 else ?c2 ! y)"
    if "y < nrow A" for y
    unfolding st'_def by (rule pmis_round_nth(4) [OF assms(1-3) that])
  have bf: "flagged omega st x" if b using beaten_flagsD [OF wf assms(4), of omega S st] that
    by (simp add: b_def)
  show "pm_cf st ! x \<noteq> 0 \<Longrightarrow> pm_cf st' ! x = pm_cf st ! x"
    using r [OF assms(4)] c2 [OF assms(4)] bf
    by (auto simp: b_def flagged_def promote_cf_def)
  show "pm_cf st ! x = 0 \<Longrightarrow> \<not> omega ! x \<ge> 1 \<Longrightarrow> pm_cf st' ! x = 2"
    using r [OF assms(4)] c2 [OF assms(4)] bf
    by (auto simp: b_def flagged_def promote_cf_def)
  show "flagged omega st x \<Longrightarrow> \<not> b \<Longrightarrow> pm_cf st' ! x = 1"
    using r [OF assms(4)] c2 [OF assms(4)]
    by (auto simp: b_def flagged_def promote_cf_def)
  show "flagged omega st x \<Longrightarrow> b \<Longrightarrow> pm_cf st' ! x = 0 \<or> pm_cf st' ! x = 2"
    using r [OF assms(4)] c2 [OF assms(4)]
    by (auto simp: b_def)
  have one: "(pm_cf st' ! c = 1) = (?c2 ! c = 1)" if "c < nrow A" for c
    using r [OF that] by auto
  have cn: "coarse_neighbour A S (pm_cf st') x = coarse_neighbour A S ?c2 x"
    by (rule coarse_neighbour_cong [OF wf assms(4)]) (rule one)
  assume z: "pm_cf st' ! x = 0"
  then have z2: "?c2 ! x = 0" "\<not> coarse_neighbour A S ?c2 x"
    using r [OF assms(4)] by (auto split: if_splits)
  have "b"
  proof (rule ccontr)
    assume "\<not> b"
    then have "promote_cf omega (pm_cf st) x = 0" using z2(1) c2 [OF assms(4)] by (simp add: b_def)
    then show False by (auto simp: promote_cf_def split: if_splits)
  qed
  then show "flagged omega st x \<and> b \<and> \<not> coarse_neighbour A S (pm_cf st') x"
    using bf z2(2) cn by simp
qed

text \<open>A converged state is a fixed point of the round.\<close>

lemma pmis_round_converged:
  fixes omega :: "real list" and S :: "bool list"
  assumes "0 < W" "nrow A \<le> grid" "pmis_wf A omega S st" "0 \<notin> set (pm_cf st)"
  defines "st' \<equiv> pmis_round W grid A omega S st"
  shows "pm_cf st' = pm_cf st" "pm_workspace st' = replicate (nrow A) False" "\<not> pm_undecided st'"
proof -
  have len: "length (pm_cf st) = nrow A" using assms(3) by (simp add: pmis_wf_def)
  have nz: "pm_cf st ! x \<noteq> 0" if "x < nrow A" for x
    using assms(4) that len by (metis nth_mem)
  show cf: "pm_cf st' = pm_cf st"
  proof (rule nth_equalityI)
    show "length (pm_cf st') = length (pm_cf st)"
      unfolding st'_def using pmis_round_nth(2) [OF assms(1-3)] len by simp
    fix x assume "x < length (pm_cf st')"
    then have x: "x < nrow A" unfolding st'_def using pmis_round_nth(2) [OF assms(1-3)] by simp
    show "pm_cf st' ! x = pm_cf st ! x"
      unfolding st'_def by (rule pmis_round_cases(1) [OF assms(1-3) x nz [OF x]])
  qed
  show "pm_workspace st' = replicate (nrow A) False"
    unfolding st'_def pmis_round_nth(1) [OF assms(1-3)]
    by (rule nth_equalityI) (use nz in \<open>auto simp: flagged_def\<close>)
  show "\<not> pm_undecided st'"
    using pmis_round_nth(3) [OF assms(1-3)] cf nz by (simp add: st'_def)
qed

lemma undecided_rows_count:
  "length (pm_cf st) = nrow A \<Longrightarrow> card (undecided_rows A st) = count_list (pm_cf st) 0"
  unfolding undecided_rows_def count_list_eq_length_filter length_filter_conv_card
  by (rule arg_cong [where f = card]) auto

lemma undecided_rows_empty:
  "length (pm_cf st) = nrow A \<Longrightarrow> undecided_rows A st = {} \<longleftrightarrow> 0 \<notin> set (pm_cf st)"
  by (auto simp: undecided_rows_def in_set_conv_nth)

lemma pmis_round_decrease:
  fixes omega :: "real list" and S :: "bool list"
  assumes "0 < W" "nrow A \<le> grid" "pmis_wf A omega S st" "undecided_rows A st \<noteq> {}"
  shows "card (undecided_rows A (pmis_round W grid A omega S st)) < card (undecided_rows A st)"
proof -
  let ?st' = "pmis_round W grid A omega S st"
  let ?F = "{x. x < nrow A \<and> flagged omega st x}"
  have wf: "csr_wf A" using assms(3) by (simp add: pmis_wf_def)
  have sub: "undecided_rows A ?st' \<subseteq> undecided_rows A st"
  proof
    fix x assume "x \<in> undecided_rows A ?st'"
    then have x: "x < nrow A" "pm_cf ?st' ! x = 0" by (simp_all add: undecided_rows_def)
    from pmis_round_cases(5) [OF assms(1-3) x] have "flagged omega st x" by simp
    then show "x \<in> undecided_rows A st" using x(1) by (simp add: undecided_rows_def flagged_def)
  qed
  have "\<exists>x\<in>undecided_rows A st. x \<notin> undecided_rows A ?st'"
  proof (cases "\<exists>x\<in>undecided_rows A st. \<not> omega ! x \<ge> 1")
    case True
    then obtain x where x: "x < nrow A" "pm_cf st ! x = 0" "\<not> omega ! x \<ge> 1"
      unfolding undecided_rows_def by blast
    have "pm_cf ?st' ! x = 2" by (rule pmis_round_cases(2) [OF assms(1-3) x])
    then have "x \<notin> undecided_rows A ?st'" by (simp add: undecided_rows_def)
    moreover have "x \<in> undecided_rows A st" using x by (simp add: undecided_rows_def)
    ultimately show ?thesis by blast
  next
    case False
    then have eq: "?F = undecided_rows A st"
      unfolding undecided_rows_def flagged_def by blast
    have fin: "finite ((\<lambda>i. omega ! i) ` ?F)" by simp
    have ne: "(\<lambda>i. omega ! i) ` ?F \<noteq> {}" using eq assms(4) by simp
    define m where "m = Max ((\<lambda>i. omega ! i) ` ?F)"
    have "m \<in> (\<lambda>i. omega ! i) ` ?F" unfolding m_def by (rule Max_in [OF fin ne])
    then obtain x where x: "x \<in> ?F" "omega ! x = m" by (elim imageE) simp
    have mx: "omega ! y \<le> omega ! x" if "y \<in> ?F" for y
    proof -
      have "omega ! y \<in> (\<lambda>i. omega ! i) ` ?F" using that by (rule imageI)
      from Max_ge [OF fin this] show ?thesis by (simp add: x(2) m_def)
    qed
    have xn: "x < nrow A" and xf: "flagged omega st x" using x(1) by simp_all
    have nb: "\<not> beaten A omega S (map (flagged omega st) [0..<nrow A]) x"
    proof
      assume "beaten A omega S (map (flagged omega st) [0..<nrow A]) x"
      from beaten_flagsD [OF wf xn this]
      obtain y where "y < nrow A" "flagged omega st y" "omega ! x < omega ! y" by blast
      then show False using mx [of y] by simp
    qed
    have "pm_cf ?st' ! x = 1" by (rule pmis_round_cases(3) [OF assms(1-3) xn xf nb])
    then have "x \<notin> undecided_rows A ?st'" by (simp add: undecided_rows_def)
    moreover have "x \<in> undecided_rows A st" using x(1) eq by blast
    ultimately show ?thesis by blast
  qed
  then have "undecided_rows A ?st' \<subset> undecided_rows A st" using sub by blast
  moreover have "finite (undecided_rows A st)" by (simp add: undecided_rows_def)
  ultimately show ?thesis by (rule psubset_card_mono [rotated])
qed

lemma pmis_loop_iterates:
  fixes omega :: "real list" and S :: "bool list"
  assumes "0 < W" "nrow A \<le> grid"
  shows "pmis_wf A omega S st \<Longrightarrow>
     \<exists>k. pmis_loop W grid A omega S st = Some ((pmis_round W grid A omega S ^^ Suc k) st) \<and>
         0 \<notin> set (pm_cf ((pmis_round W grid A omega S ^^ Suc k) st)) \<and>
         Suc k \<le> max 1 (card (undecided_rows A st))"
proof (induction "card (undecided_rows A st)" arbitrary: st rule: less_induct)
  case less
  let ?r = "pmis_round W grid A omega S"
  have wf': "pmis_wf A omega S (?r st)" by (rule pmis_round_wf [OF assms less.prems])
  have len': "length (pm_cf (?r st)) = nrow A" using wf' by (simp add: pmis_wf_def)
  have len: "length (pm_cf st) = nrow A" using less.prems by (simp add: pmis_wf_def)
  have flag: "pm_undecided (?r st) \<longleftrightarrow> undecided_rows A (?r st) \<noteq> {}"
    using pmis_round_nth(3) [OF assms less.prems] by (auto simp: undecided_rows_def)
  show ?case
  proof (cases "pm_undecided (?r st)")
    case False
    then have "pmis_loop W grid A omega S st = Some (?r st)"
      by (subst pmis_loop.simps) (simp add: Let_def)
    moreover have "0 \<notin> set (pm_cf (?r st))"
      using False flag undecided_rows_empty [OF len'] by simp
    ultimately show ?thesis by (intro exI [of _ 0]) simp
  next
    case True
    have ne: "undecided_rows A st \<noteq> {}"
    proof
      assume "undecided_rows A st = {}"
      then have "0 \<notin> set (pm_cf st)" using undecided_rows_empty [OF len] by simp
      from pmis_round_converged(3) [OF assms less.prems this] True show False by simp
    qed
    have dec: "card (undecided_rows A (?r st)) < card (undecided_rows A st)"
      by (rule pmis_round_decrease [OF assms less.prems ne])
    from less.hyps [OF dec wf'] obtain k where
      k: "pmis_loop W grid A omega S (?r st) = Some ((?r ^^ Suc k) (?r st))"
         "0 \<notin> set (pm_cf ((?r ^^ Suc k) (?r st)))"
         "Suc k \<le> max 1 (card (undecided_rows A (?r st)))"
      by blast
    have pos: "0 < card (undecided_rows A (?r st))"
      using True flag by (simp add: undecided_rows_def card_gt_0_iff)
    have shift: "(?r ^^ Suc k) (?r st) = (?r ^^ Suc (Suc k)) st"
      by (simp only: funpow_Suc_right o_apply)
    have "pmis_loop W grid A omega S st = pmis_loop W grid A omega S (?r st)"
      using True by (subst pmis_loop.simps) (simp add: Let_def)
    then have "pmis_loop W grid A omega S st = Some ((?r ^^ Suc (Suc k)) st)"
      using k(1) shift by simp
    moreover have "0 \<notin> set (pm_cf ((?r ^^ Suc (Suc k)) st))" using k(2) shift by simp
    moreover have "Suc (Suc k) \<le> max 1 (card (undecided_rows A st))"
      using k(3) dec pos by simp
    ultimately show ?thesis by blast
  qed
qed

lemma ex_wf: "pmis_wf ex_A ex_omega ex_S ex_st"
  by (simp add: pmis_wf_def csr_wf_def ex_A_def ex_omega_def ex_S_def ex_st_def upt_rec)

lemma ex_round1: "pmis_round 2 4 ex_A ex_omega ex_S ex_st =
   \<lparr>pm_cf = [1, 0, 2, 2], pm_workspace = [True, True, False, False], pm_undecided = True\<rparr>"
  by code_simp

lemma ex_round2: "pmis_round 2 4 ex_A ex_omega ex_S
   \<lparr>pm_cf = [1, 0, 2, 2], pm_workspace = [True, True, False, False], pm_undecided = True\<rparr> =
   \<lparr>pm_cf = [1, 1, 2, 2], pm_workspace = [False, True, False, False], pm_undecided = False\<rparr>"
  by code_simp

lemma ex_loop: "pmis_loop 2 4 ex_A ex_omega ex_S ex_st =
   Some \<lparr>pm_cf = [1, 1, 2, 2], pm_workspace = [False, True, False, False], pm_undecided = False\<rparr>"
  apply (subst pmis_loop.simps)
  apply (simp only: ex_round1 Let_def pmis_state.simps if_True)
  apply (subst pmis_loop.simps)
  apply (simp only: ex_round2 Let_def pmis_state.simps if_False)
  done

lemma pmis_round_coarse:
  fixes omega :: "real list" and S :: "bool list"
  assumes "0 < W" "nrow A \<le> grid" "pmis_wf A omega S st" "x < nrow A"
    and "pm_cf (pmis_round W grid A omega S st) ! x = 1"
  shows "pm_cf st ! x = 1 \<or>
    (flagged omega st x \<and> \<not> beaten A omega S (map (flagged omega st) [0..<nrow A]) x)"
proof (cases "pm_cf st ! x = 0")
  case False
  from pmis_round_cases(1) [OF assms(1-4) False] assms(5) show ?thesis by simp
next
  case True
  show ?thesis
  proof (cases "omega ! x \<ge> 1")
    case False
    from pmis_round_cases(2) [OF assms(1-4) True False] assms(5) show ?thesis by simp
  next
    case ge: True
    then have f: "flagged omega st x" using True by (simp add: flagged_def)
    show ?thesis
    proof (cases "beaten A omega S (map (flagged omega st) [0..<nrow A]) x")
      case True
      from pmis_round_cases(4) [OF assms(1-4) f True] assms(5) show ?thesis by simp
    next
      case False
      then show ?thesis using f by simp
    qed
  qed
qed

lemma strong_edge_col:
  "csr_wf A \<Longrightarrow> r < nrow A \<Longrightarrow> strong_edge A S r c \<Longrightarrow> c < nrow A"
  using row_range_col by (auto simp: strong_edge_def)

lemma coarse_neighbour_edge:
  "coarse_neighbour A S cf x \<longleftrightarrow> (\<exists>c. strong_edge A S x c \<and> cf ! c = 1)"
  by (auto simp: coarse_neighbour_def strong_edge_def)

lemma beaten_lowerI:
  assumes "x < nrow A" "flagged omega st x" "flagged omega st y" "y < nrow A"
    and "strong_edge A S x y" "omega ! x < omega ! y"
  shows "beaten A omega S (map (flagged omega st) [0..<nrow A]) x"
proof -
  from assms(5) obtain j where j: "j \<in> row_range A x" "S ! j" "csr_col_ind A ! j = y"
    by (auto simp: strong_edge_def)
  show ?thesis
    unfolding beaten_def using assms(1-4,6) j by (intro exI [of _ x]) auto
qed

lemma pmis_round_inv:
  fixes omega :: "real list" and S :: "bool list"
  assumes "0 < W" "nrow A \<le> grid" "pmis_wf A omega S st" "pmis_inv A omega S st"
  shows "pmis_inv A omega S (pmis_round W grid A omega S st)"
proof -
  let ?st' = "pmis_round W grid A omega S st"
  let ?b = "beaten A omega S (map (flagged omega st) [0..<nrow A])"
  have wf: "csr_wf A" using assms(3) by (simp add: pmis_wf_def)
  have i1: "\<not> coarse_neighbour A S (pm_cf ?st') x" if "x < nrow A" "pm_cf ?st' ! x = 0" for x
    using pmis_round_cases(5) [OF assms(1-3) that] by simp
  have i2: "pm_cf ?st' ! c \<noteq> 0 \<and> pm_cf ?st' ! c \<noteq> 1"
    if r: "r < nrow A" and e: "strong_edge A S r c"
      and o: "omega ! r < omega ! c" and one: "pm_cf ?st' ! r = 1" for r c
  proof -
    have c: "c < nrow A" by (rule strong_edge_col [OF wf r e])
    from pmis_round_coarse [OF assms(1-3) r one]
    have cr: "pm_cf st ! r = 1 \<or> (flagged omega st r \<and> \<not> ?b r)" .
    have old1: "\<not> coarse_neighbour A S (pm_cf st) x" if "x < nrow A" "pm_cf st ! x = 0" for x
      using assms(4) that by (simp add: pmis_inv_def)
    have keep: "pm_cf ?st' ! c = pm_cf st ! c" if "pm_cf st ! c \<noteq> 0"
      by (rule pmis_round_cases(1) [OF assms(1-3) c that])
    have "pm_cf st ! c \<noteq> 0 \<and> pm_cf st ! c \<noteq> 1"
      using cr
    proof
      assume "pm_cf st ! r = 1"
      then show ?thesis using assms(4) r e o unfolding pmis_inv_def by blast
    next
      assume f: "flagged omega st r \<and> \<not> ?b r"
      then have z: "pm_cf st ! r = 0" and ge: "omega ! r \<ge> 1" by (simp_all add: flagged_def)
      have n1: "pm_cf st ! c \<noteq> 1"
        using old1 [OF r z] e by (auto simp: coarse_neighbour_edge)
      have n0: "pm_cf st ! c \<noteq> 0"
      proof
        assume "pm_cf st ! c = 0"
        then have "flagged omega st c" using ge o by (simp add: flagged_def)
        from beaten_lowerI [OF r _ this c e o] f show False by simp
      qed
      show ?thesis using n0 n1 by simp
    qed
    then show ?thesis using keep by simp
  qed
  show ?thesis unfolding pmis_inv_def using i1 i2 by blast
qed

lemma pmis_funpow_inv:
  fixes omega :: "real list" and S :: "bool list"
  assumes "0 < W" "nrow A \<le> grid" "pmis_wf A omega S st"
  shows "pmis_wf A omega S ((pmis_round W grid A omega S ^^ k) st) \<and>
         (pmis_inv A omega S st \<longrightarrow> pmis_inv A omega S ((pmis_round W grid A omega S ^^ k) st))"
proof (induction k)
  case 0
  then show ?case using assms(3) by simp
next
  case (Suc k)
  then show ?case
    using pmis_round_wf [OF assms(1,2)] pmis_round_inv [OF assms(1,2)] by simp
qed

lemma pmis_round_cf_only:
  fixes omega :: "real list" and S :: "bool list"
  assumes "0 < W" "nrow A \<le> grid" "pmis_wf A omega S st" "pmis_wf A omega S st2"
    and "pm_cf st = pm_cf st2"
  shows "pmis_round W grid A omega S st = pmis_round W grid A omega S st2"
  unfolding pmis_round_closed(1) [OF assms(1,2,3)] pmis_round_closed(1) [OF assms(1,2,4)]
    flagged_def [abs_def] assms(5) ..

text \<open>
  C5. On a state without Undecided rows one round changes no entry of \<open>cf\<close>, leaves the
  workspace all false and the convergence flag unset (the check kernel alone leaves the
  state as it is); a second round, and the coarsening loop run again, give the same state.
\<close>

theorem pmis_round_idempotent:
  fixes omega :: "real list" and S :: "bool list"
  assumes "0 < WFSIZE" "nrow A \<le> grid" "pmis_wf A omega S st" "0 \<notin> set (pm_cf st)"
  shows "pm_cf (pmis_round WFSIZE grid A omega S st) = pm_cf st \<and>
         pm_workspace (pmis_round WFSIZE grid A omega S st) = replicate (nrow A) False \<and>
         \<not> pm_undecided (pmis_round WFSIZE grid A omega S st) \<and>
         kernel_csr_rs_pmis_check_undecided grid (nrow A) st = st \<and>
         pmis_round WFSIZE grid A omega S (pmis_round WFSIZE grid A omega S st) =
           pmis_round WFSIZE grid A omega S st \<and>
         pmis_loop WFSIZE grid A omega S st = Some (pmis_round WFSIZE grid A omega S st) \<and>
         pmis_loop WFSIZE grid A omega S (pmis_round WFSIZE grid A omega S st) =
           Some (pmis_round WFSIZE grid A omega S st)"
proof -
  let ?r = "pmis_round WFSIZE grid A omega S"
  note c = pmis_round_converged [OF assms]
  have wf': "pmis_wf A omega S (?r st)" by (rule pmis_round_wf [OF assms(1-3)])
  have rr: "?r (?r st) = ?r st"
    by (rule pmis_round_cf_only [OF assms(1,2) wf' assms(3) c(1)])
  have len: "length (pm_cf st) = nrow A" using assms(3) by (simp add: pmis_wf_def)
  have nz: "\<not> (\<exists>i<nrow A. pm_cf st ! i = 0)"
    using assms(4) len by (metis nth_mem)
  have chk: "kernel_csr_rs_pmis_check_undecided grid (nrow A) st = st"
    using kernel_check [OF assms(2), of st] nz by (intro pmis_state.equality) simp_all
  have l1: "pmis_loop WFSIZE grid A omega S st = Some (?r st)"
    using c(3) by (subst pmis_loop.simps) (simp add: Let_def)
  have l2: "pmis_loop WFSIZE grid A omega S (?r st) = Some (?r st)"
    using c(3) rr by (subst pmis_loop.simps) (simp add: Let_def)
  show ?thesis using c rr chk l1 l2 by simp
qed

theorem pmis_round_idempotent_witness:
  "0 < (2::nat) \<and> nrow ex_A \<le> 4 \<and> pmis_wf ex_A ex_omega ex_S ex_final \<and>
   0 \<notin> set (pm_cf ex_final) \<and>
   pmis_round 2 4 ex_A ex_omega ex_S (pmis_round 2 4 ex_A ex_omega ex_S ex_final) =
     pmis_round 2 4 ex_A ex_omega ex_S ex_final \<and>
   pm_cf (pmis_round 2 4 ex_A ex_omega ex_S ex_final) = [1, 1, 2, 2]"
proof -
  have h: "pmis_wf ex_A ex_omega ex_S ex_final" "0 \<notin> set (pm_cf ex_final)" "nrow ex_A \<le> 4"
    by (simp_all add: pmis_wf_def csr_wf_def ex_A_def ex_omega_def ex_S_def ex_final_def upt_rec)
  from pmis_round_idempotent [OF _ h(3) h(1) h(2), of 2] h show ?thesis
    by (simp add: ex_final_def)
qed

text \<open>
  C1. From any state whose arrays fit the matrix, the loop returns: after finitely many
  rounds, at most one per row that was Undecided (and one if none was), it yields a state
  with no Undecided row and the flag unset. The loop itself has no iteration cap.
\<close>

theorem pmis_loop_terminates:
  fixes omega :: "real list" and S :: "bool list"
  assumes "0 < WFSIZE" "nrow A \<le> grid" "pmis_wf A omega S st"
  shows "\<exists>k. pmis_loop WFSIZE grid A omega S st =
                Some ((pmis_round WFSIZE grid A omega S ^^ Suc k) st) \<and>
             Suc k \<le> max 1 (count_list (pm_cf st) 0) \<and>
             0 \<notin> set (pm_cf ((pmis_round WFSIZE grid A omega S ^^ Suc k) st)) \<and>
             \<not> pm_undecided ((pmis_round WFSIZE grid A omega S ^^ Suc k) st)"
proof -
  let ?r = "pmis_round WFSIZE grid A omega S"
  have len: "length (pm_cf st) = nrow A" using assms(3) by (simp add: pmis_wf_def)
  from pmis_loop_iterates [OF assms] obtain k where
    k: "pmis_loop WFSIZE grid A omega S st = Some ((?r ^^ Suc k) st)"
       "0 \<notin> set (pm_cf ((?r ^^ Suc k) st))"
       "Suc k \<le> max 1 (card (undecided_rows A st))"
    by blast
  have wfk: "pmis_wf A omega S ((?r ^^ k) st)"
    using pmis_funpow_inv [OF assms, of k] by simp
  have lenk: "length (pm_cf (?r ((?r ^^ k) st))) = nrow A"
    using pmis_round_wf [OF assms(1,2) wfk] by (simp add: pmis_wf_def)
  have "pm_undecided (?r ((?r ^^ k) st)) \<longleftrightarrow> (\<exists>i<nrow A. pm_cf (?r ((?r ^^ k) st)) ! i = 0)"
    by (rule pmis_round_nth(3) [OF assms(1,2) wfk])
  moreover have "\<not> (\<exists>i<nrow A. pm_cf (?r ((?r ^^ k) st)) ! i = 0)"
    using k(2) lenk by (metis funpow.simps(2) o_apply nth_mem)
  ultimately have "\<not> pm_undecided ((?r ^^ Suc k) st)" by simp
  then show ?thesis using k undecided_rows_count [OF len] by auto
qed

theorem pmis_loop_terminates_witness:
  "0 < (2::nat) \<and> nrow ex_A \<le> 4 \<and> pmis_wf ex_A ex_omega ex_S ex_st \<and>
   (\<exists>k. pmis_loop 2 4 ex_A ex_omega ex_S ex_st =
           Some ((pmis_round 2 4 ex_A ex_omega ex_S ^^ Suc k) ex_st) \<and>
        Suc k \<le> 4 \<and>
        0 \<notin> set (pm_cf ((pmis_round 2 4 ex_A ex_omega ex_S ^^ Suc k) ex_st)))"
proof -
  have h: "pmis_wf ex_A ex_omega ex_S ex_st" "nrow ex_A \<le> 4"
    by (simp_all add: pmis_wf_def csr_wf_def ex_A_def ex_omega_def ex_S_def ex_st_def upt_rec)
  have c: "count_list (pm_cf ex_st) 0 = 4" by (simp add: ex_st_def)
  from pmis_loop_terminates [OF _ h(2) h(1), of 2] h show ?thesis
    unfolding c by auto
qed

section \<open>Strength of connection\<close>














lemma fold_over_concat: "fold f (concat xss) = fold (fold f) xss"
  by (induction xss) simp_all





lemma length_filter_upt_card:
  "length (filter P [a..<b]) = card {j \<in> {a..<b}. P j}"
proof -
  have "length (filter P [a..<b]) = card (set (filter P [a..<b]))"
    by (rule distinct_card [symmetric]) simp
  then show ?thesis by (simp add: Collect_conj_eq Int_commute)
qed





text \<open>
  The strength mask and the weights of the example are what the classifier computes for
  the matrix \<open>ex_A\<close> with \<open>eps = 1/4\<close> from an all-false \<open>S\<close> and the jitter
  \<open>1/2, 1/4, 1/2, 3/4\<close>.
\<close>

lemma ex_classified:
  "kernel_csr_rs_pmis_strong_influences 2 4 ex_A (1/4) (\<lambda>_. False) ex_ss =
     \<lparr>ss_omega = ex_omega, ss_S = ex_S\<rparr>"
  by code_simp

section \<open>Claims about the coarsening loop\<close>

text \<open>
  C4. In a round, a Fine row stays Fine through every kernel; the first and third kernel
  never write Undecided; the arbitration kernel writes Undecided only to rows that the
  first kernel of the same round promoted (flagged in the workspace, Undecided at the
  start of the round and Coarse after it); the check kernel leaves \<open>cf\<close> as it is; and
  states within 0, 1, 2 stay there. The same holds over any number of rounds.
\<close>

theorem pmis_fine_never_reverted:
  fixes omega :: "real list" and S :: "bool list"
  assumes "0 < WFSIZE" "nrow A \<le> grid" "pmis_wf A omega S st"
  defines "st1 \<equiv> kernel_csr_rs_pmis_unassigned_to_coarse grid (nrow A) omega st"
  defines "st2 \<equiv> kernel_csr_rs_pmis_correct_coarse WFSIZE grid A omega S st1"
  defines "st3 \<equiv> kernel_csr_rs_pmis_coarse_edges_to_fine WFSIZE grid A S st2"
  shows "(\<forall>x<nrow A. pm_cf st ! x = 2 \<longrightarrow>
            pm_cf st1 ! x = 2 \<and> pm_cf st2 ! x = 2 \<and> pm_cf st3 ! x = 2 \<and>
            (\<forall>k. pm_cf ((pmis_round WFSIZE grid A omega S ^^ k) st) ! x = 2)) \<and>
         (\<forall>x<nrow A. pm_cf st1 ! x \<noteq> 0 \<and> (pm_cf st3 ! x = 0 \<longrightarrow> pm_cf st2 ! x = 0)) \<and>
         (\<forall>x<nrow A. pm_cf st2 ! x = 0 \<longrightarrow>
            pm_workspace st1 ! x \<and> pm_cf st ! x = 0 \<and> pm_cf st1 ! x = 1) \<and>
         pm_cf (pmis_round WFSIZE grid A omega S st) = pm_cf st3 \<and>
         (set (pm_cf st) \<subseteq> {0, 1, 2} \<longrightarrow>
            set (pm_cf st1) \<subseteq> {0, 1, 2} \<and> set (pm_cf st2) \<subseteq> {0, 1, 2} \<and>
            set (pm_cf st3) \<subseteq> {0, 1, 2} \<and>
            (\<forall>k. set (pm_cf ((pmis_round WFSIZE grid A omega S ^^ k) st)) \<subseteq> {0, 1, 2}))"
proof -
  let ?n = "nrow A"
  let ?r = "pmis_round WFSIZE grid A omega S"
  let ?ws = "map (flagged omega st) [0..<?n]"
  let ?c1 = "map (promote_cf omega (pm_cf st)) [0..<?n]"
  let ?c2 = "map (\<lambda>x. if beaten A omega S ?ws x then 0 else promote_cf omega (pm_cf st) x) [0..<?n]"
  let ?c3 = "map (\<lambda>x. if ?c2 ! x = 0 \<and> coarse_neighbour A S ?c2 x then 2 else ?c2 ! x) [0..<?n]"
  note cl = pmis_round_closed [OF assms(1-3)]
  have wf: "csr_wf A" and len: "length (pm_cf st) = ?n" using assms(3) by (simp_all add: pmis_wf_def)
  have s1: "st1 = st\<lparr>pm_cf := ?c1, pm_workspace := ?ws\<rparr>" unfolding st1_def by (rule cl(2))
  have s2: "st2 = st\<lparr>pm_cf := ?c2, pm_workspace := ?ws\<rparr>" unfolding st2_def s1 by (rule cl(3))
  have s3: "st3 = st\<lparr>pm_cf := ?c3, pm_workspace := ?ws\<rparr>" unfolding st3_def s2 by (rule cl(4))
  have r: "pm_cf (?r st) = pm_cf st3" unfolding s3 cl(1) by simp
  have bf: "flagged omega st x" if "x < ?n" "beaten A omega S ?ws x" for x
    using beaten_flagsD [OF wf that] by simp
  have c1: "pm_cf st1 ! x = promote_cf omega (pm_cf st) x" if "x < ?n" for x
    using that by (simp add: s1)
  have c2: "pm_cf st2 ! x = (if beaten A omega S ?ws x then 0 else promote_cf omega (pm_cf st) x)"
    if "x < ?n" for x using that by (simp add: s2)
  have c3: "pm_cf st3 ! x = (if pm_cf st2 ! x = 0 \<and> coarse_neighbour A S (pm_cf st2) x then 2 else pm_cf st2 ! x)"
    if "x < ?n" for x using that by (simp add: s3 s2)
  have w1: "pm_workspace st1 ! x = flagged omega st x" if "x < ?n" for x
    using that by (simp add: s1)
  have iter: "pmis_wf A omega S ((?r ^^ k) st) \<and>
      (\<forall>x<?n. pm_cf st ! x = 2 \<longrightarrow> pm_cf ((?r ^^ k) st) ! x = 2) \<and>
      (set (pm_cf st) \<subseteq> {0, 1, 2} \<longrightarrow> set (pm_cf ((?r ^^ k) st)) \<subseteq> {0, 1, 2})" for k
  proof (induction k)
    case 0
    then show ?case using assms(3) by simp
  next
    case (Suc k)
    let ?s = "(?r ^^ k) st"
    have wfk: "pmis_wf A omega S ?s" using Suc by simp
    have lk: "length (pm_cf ?s) = ?n" using wfk by (simp add: pmis_wf_def)
    have lk': "length (pm_cf (?r ?s)) = ?n" by (rule pmis_round_nth(2) [OF assms(1,2) wfk])
    have fine: "pm_cf (?r ?s) ! x = 2" if "x < ?n" "pm_cf st ! x = 2" for x
    proof -
      have "pm_cf ?s ! x = 2" using Suc that by simp
      then show ?thesis using pmis_round_cases(1) [OF assms(1,2) wfk that(1)] by simp
    qed
    have rng: "set (pm_cf (?r ?s)) \<subseteq> {0, 1, 2}" if "set (pm_cf st) \<subseteq> {0, 1, 2}"
    proof
      fix v assume "v \<in> set (pm_cf (?r ?s))"
      then obtain x where x: "x < ?n" "v = pm_cf (?r ?s) ! x"
        using lk' by (auto simp: in_set_conv_nth)
      have old: "pm_cf ?s ! x \<in> {0, 1, 2}" using Suc that x(1) lk by (metis nth_mem subsetD)
      show "v \<in> {0, 1, 2}"
      proof (cases "pm_cf ?s ! x = 0")
        case False
        then show ?thesis using pmis_round_cases(1) [OF assms(1,2) wfk x(1)] old x(2) by simp
      next
        case True
        show ?thesis
        proof (cases "flagged omega ?s x")
          case False
          then have "\<not> omega ! x \<ge> 1" using True by (simp add: flagged_def)
          from pmis_round_cases(2) [OF assms(1,2) wfk x(1) True this] show ?thesis
            by (simp add: x(2))
        next
          case f: True
          show ?thesis
            using pmis_round_cases(3,4) [OF assms(1,2) wfk x(1) f] by (auto simp: x(2))
        qed
      qed
    qed
    show ?case using pmis_round_wf [OF assms(1,2) wfk] fine rng by simp
  qed
  have A1: "\<forall>x<?n. pm_cf st ! x = 2 \<longrightarrow>
            pm_cf st1 ! x = 2 \<and> pm_cf st2 ! x = 2 \<and> pm_cf st3 ! x = 2 \<and>
            (\<forall>k. pm_cf ((?r ^^ k) st) ! x = 2)"
  proof (intro allI impI)
    fix x assume x: "x < ?n" "pm_cf st ! x = 2"
    then have nf: "\<not> flagged omega st x" by (simp add: flagged_def)
    then have nb: "\<not> beaten A omega S ?ws x" using bf [OF x(1)] by blast
    have p: "promote_cf omega (pm_cf st) x = 2" using x(2) by (simp add: promote_cf_def)
    show "pm_cf st1 ! x = 2 \<and> pm_cf st2 ! x = 2 \<and> pm_cf st3 ! x = 2 \<and>
            (\<forall>k. pm_cf ((?r ^^ k) st) ! x = 2)"
      using c1 [OF x(1)] c2 [OF x(1)] c3 [OF x(1)] nb p iter x by simp
  qed
  have A2: "\<forall>x<?n. pm_cf st1 ! x \<noteq> 0 \<and> (pm_cf st3 ! x = 0 \<longrightarrow> pm_cf st2 ! x = 0)"
    using c1 c3 by (auto simp: promote_cf_def)
  have A3: "\<forall>x<?n. pm_cf st2 ! x = 0 \<longrightarrow>
            pm_workspace st1 ! x \<and> pm_cf st ! x = 0 \<and> pm_cf st1 ! x = 1"
  proof (intro allI impI)
    fix x assume x: "x < ?n" "pm_cf st2 ! x = 0"
    have "beaten A omega S ?ws x"
      using c2 [OF x(1)] x(2) by (auto simp: promote_cf_def split: if_splits)
    then have "flagged omega st x" by (rule bf [OF x(1)])
    then show "pm_workspace st1 ! x \<and> pm_cf st ! x = 0 \<and> pm_cf st1 ! x = 1"
      using w1 [OF x(1)] c1 [OF x(1)] by (simp add: flagged_def promote_cf_def)
  qed
  have A5: "set (pm_cf st1) \<subseteq> {0, 1, 2} \<and> set (pm_cf st2) \<subseteq> {0, 1, 2} \<and>
            set (pm_cf st3) \<subseteq> {0, 1, 2}" if "set (pm_cf st) \<subseteq> {0, 1, 2}"
  proof -
    have old: "pm_cf st ! x \<in> {0, 1, 2}" if "x < ?n" for x
      using \<open>set (pm_cf st) \<subseteq> {0, 1, 2}\<close> that len by (metis nth_mem subsetD)
    have p: "promote_cf omega (pm_cf st) x \<in> {0, 1, 2}" if "x < ?n" for x
      using old [OF that] by (auto simp: promote_cf_def)
    have "set (pm_cf st1) \<subseteq> {0, 1, 2}" using p by (fastforce simp: s1)
    moreover have "set (pm_cf st2) \<subseteq> {0, 1, 2}" using p by (fastforce simp: s2)
    moreover have "set (pm_cf st3) \<subseteq> {0, 1, 2}" using p by (fastforce simp: s3)
    ultimately show ?thesis by simp
  qed
  show ?thesis using A1 A2 A3 r A5 iter by blast
qed

theorem pmis_fine_never_reverted_witness:
  "0 < (2::nat) \<and> nrow ex_A \<le> 4 \<and> pmis_wf ex_A ex_omega ex_S ex_mid \<and>
   (2::nat) < nrow ex_A \<and> pm_cf ex_mid ! 2 = 2 \<and> set (pm_cf ex_mid) \<subseteq> {0, 1, 2} \<and>
   pm_cf (kernel_csr_rs_pmis_correct_coarse 2 4 ex_A ex_omega ex_S
            (kernel_csr_rs_pmis_unassigned_to_coarse 4 (nrow ex_A) ex_omega ex_mid)) ! 2 = 2 \<and>
   pm_cf (pmis_round 2 4 ex_A ex_omega ex_S ex_mid) =
     pm_cf (kernel_csr_rs_pmis_coarse_edges_to_fine 2 4 ex_A ex_S
       (kernel_csr_rs_pmis_correct_coarse 2 4 ex_A ex_omega ex_S
            (kernel_csr_rs_pmis_unassigned_to_coarse 4 (nrow ex_A) ex_omega ex_mid)))"
proof -
  have h: "(0::nat) < 2" "nrow ex_A \<le> 4" "pmis_wf ex_A ex_omega ex_S ex_mid"
    "(2::nat) < nrow ex_A" "pm_cf ex_mid ! 2 = 2" "set (pm_cf ex_mid) \<subseteq> {0, 1, 2}"
    by (simp_all add: pmis_wf_def csr_wf_def ex_A_def ex_omega_def ex_S_def ex_mid_def upt_rec)
  note t = pmis_fine_never_reverted [OF h(1,2,3)]
  note a = t [THEN conjunct1, rule_format, OF h(4) h(5), THEN conjunct2, THEN conjunct1]
  note r = t [THEN conjunct2, THEN conjunct2, THEN conjunct2, THEN conjunct1]
  show ?thesis by (intro conjI h a r)
qed

text \<open>
  C2, as stated, fails: in the matrix \<open>ex_A\<close>, with the mask and the weights that the
  classifier computes for it, row 0 has a strong entry to column 1, the weights differ,
  and the loop ends with rows 0 and 1 both Coarse. Row 1 loses the
  arbitration of the first round, has no strong entry of its own back to row 0, so the
  third kernel does not make it Fine, and the second round promotes it again with no
  flagged competitor left.
\<close>

theorem pmis_coarse_pair_counterexample:
  "kernel_csr_rs_pmis_strong_influences 2 4 ex_A (1/4) (\<lambda>_. False) ex_ss =
     \<lparr>ss_omega = ex_omega, ss_S = ex_S\<rparr> \<and>
   pmis_wf ex_A ex_omega ex_S ex_st \<and>
   pmis_loop 2 4 ex_A ex_omega ex_S ex_st = Some ex_final \<and>
   0 \<notin> set (pm_cf ex_final) \<and>
   strong_edge ex_A ex_S 0 1 \<and> ex_omega ! 0 \<noteq> ex_omega ! 1 \<and>
   pm_cf ex_final ! 0 = 1 \<and> pm_cf ex_final ! 1 = 1"
proof -
  have "strong_edge ex_A ex_S 0 1"
    unfolding strong_edge_def row_range_def
    by (rule bexI [of _ 1]) (simp_all add: ex_A_def ex_S_def)
  then show ?thesis
    using ex_wf ex_loop ex_classified by (simp add: ex_final_def ex_omega_def)
qed

text \<open>
  C2, amended. Started from the all-Undecided state, the loop returns a state in which a
  row \<open>r\<close> and a strongly connected neighbour \<open>c\<close> of \<open>r\<close> (S true on an entry of
  row \<open>r\<close> with column \<open>c\<close>) with different weights are not both Coarse, provided that
  the weight of \<open>r\<close> is the smaller one or that \<open>r\<close> is a strongly connected neighbour
  of \<open>c\<close> as well. What is left out is the pair of the counterexample: the weight of
  \<open>r\<close> is the larger one and \<open>c\<close> has no strong entry back to \<open>r\<close>.
\<close>

theorem pmis_coarse_pairs_exclusive:
  fixes omega :: "real list" and S :: "bool list"
  assumes "0 < WFSIZE" "nrow A \<le> grid" "pmis_wf A omega S st"
    and "pm_cf st = replicate (nrow A) 0"
  shows "\<exists>st'. pmis_loop WFSIZE grid A omega S st = Some st' \<and> 0 \<notin> set (pm_cf st') \<and>
           (\<forall>r c. r < nrow A \<and> strong_edge A S r c \<and> omega ! r \<noteq> omega ! c \<and>
                 (omega ! r < omega ! c \<or> strong_edge A S c r) \<longrightarrow>
                 \<not> (pm_cf st' ! r = 1 \<and> pm_cf st' ! c = 1))"
proof -
  let ?r = "pmis_round WFSIZE grid A omega S"
  have wf: "csr_wf A" using assms(3) by (simp add: pmis_wf_def)
  have init: "pmis_inv A omega S st"
    unfolding pmis_inv_def assms(4)
    using strong_edge_col [OF wf] by (auto simp: coarse_neighbour_edge)
  from pmis_loop_iterates [OF assms(1-3)] obtain k where
    k: "pmis_loop WFSIZE grid A omega S st = Some ((?r ^^ Suc k) st)"
       "0 \<notin> set (pm_cf ((?r ^^ Suc k) st))"
    by blast
  let ?cf = "pm_cf ((?r ^^ Suc k) st)"
  have "pmis_inv A omega S ((?r ^^ Suc k) st)"
    using pmis_funpow_inv [OF assms(1-3), of "Suc k"] init by blast
  then have low: "?cf ! c \<noteq> 1"
    if "r < nrow A" "strong_edge A S r c" "omega ! r < omega ! c" "?cf ! r = 1" for r c
    using that unfolding pmis_inv_def by blast
  have "\<not> (?cf ! r = 1 \<and> ?cf ! c = 1)"
    if r: "r < nrow A" and e: "strong_edge A S r c" and ne: "omega ! r \<noteq> omega ! c"
      and d: "omega ! r < omega ! c \<or> strong_edge A S c r" for r c
  proof (cases "omega ! r < omega ! c")
    case True
    then show ?thesis using low [OF r e] by blast
  next
    case False
    then have lt: "omega ! c < omega ! r" and rev: "strong_edge A S c r" using ne d by simp_all
    have c: "c < nrow A" by (rule strong_edge_col [OF wf r e])
    show ?thesis using low [OF c rev lt] by blast
  qed
  then show ?thesis using k by blast
qed

lemma sym_loop: "pmis_loop 2 2 sym_A sym_omega sym_S sym_st =
   Some \<lparr>pm_cf = [1, 2], pm_workspace = [True, True], pm_undecided = False\<rparr>"
proof -
  have r: "pmis_round 2 2 sym_A sym_omega sym_S sym_st =
     \<lparr>pm_cf = [1, 2], pm_workspace = [True, True], pm_undecided = False\<rparr>"
    by code_simp
  show ?thesis
    by (subst pmis_loop.simps) (simp only: r Let_def pmis_state.simps if_False)
qed

theorem pmis_coarse_pairs_exclusive_witness:
  "0 < (2::nat) \<and> nrow sym_A \<le> 2 \<and> pmis_wf sym_A sym_omega sym_S sym_st \<and>
   pm_cf sym_st = replicate (nrow sym_A) 0 \<and>
   (0::nat) < nrow sym_A \<and> strong_edge sym_A sym_S 0 1 \<and> strong_edge sym_A sym_S 1 0 \<and>
   sym_omega ! 0 \<noteq> sym_omega ! 1 \<and>
   \<not> (pm_cf (the (pmis_loop 2 2 sym_A sym_omega sym_S sym_st)) ! 0 = 1 \<and>
      pm_cf (the (pmis_loop 2 2 sym_A sym_omega sym_S sym_st)) ! 1 = 1) \<and>
   nrow ex_A \<le> 4 \<and> pmis_wf ex_A ex_omega ex_S ex_st \<and> pm_cf ex_st = replicate (nrow ex_A) 0 \<and>
   (2::nat) < nrow ex_A \<and> strong_edge ex_A ex_S 2 0 \<and> \<not> strong_edge ex_A ex_S 0 2 \<and>
   ex_omega ! 2 < ex_omega ! 0 \<and>
   \<not> (pm_cf (the (pmis_loop 2 4 ex_A ex_omega ex_S ex_st)) ! 2 = 1 \<and>
      pm_cf (the (pmis_loop 2 4 ex_A ex_omega ex_S ex_st)) ! 0 = 1)"
proof -
  have h: "(0::nat) < 2" "nrow sym_A \<le> 2" "pmis_wf sym_A sym_omega sym_S sym_st"
    "pm_cf sym_st = replicate (nrow sym_A) 0" "(0::nat) < nrow sym_A"
    "sym_omega ! 0 \<noteq> sym_omega ! 1"
    by (simp_all add: pmis_wf_def csr_wf_def sym_A_def sym_omega_def sym_S_def sym_st_def
        upt_rec replicate_Suc numeral_2_eq_2)
  have e: "strong_edge sym_A sym_S 0 1" "strong_edge sym_A sym_S 1 0"
    unfolding strong_edge_def row_range_def
    by (rule bexI [of _ 1], simp_all add: sym_A_def sym_S_def)
       (rule bexI [of _ 2], simp_all)
  from pmis_coarse_pairs_exclusive [OF h(1,2,3,4)] obtain st' where
    st': "pmis_loop 2 2 sym_A sym_omega sym_S sym_st = Some st'"
    and p: "\<forall>r c. r < nrow sym_A \<and> strong_edge sym_A sym_S r c \<and> sym_omega ! r \<noteq> sym_omega ! c \<and>
                 (sym_omega ! r < sym_omega ! c \<or> strong_edge sym_A sym_S c r) \<longrightarrow>
                 \<not> (pm_cf st' ! r = 1 \<and> pm_cf st' ! c = 1)"
    by blast
  have "\<not> (pm_cf st' ! 0 = 1 \<and> pm_cf st' ! 1 = 1)"
    using p [rule_format, of 0 1] h(5,6) e by simp
  then have a: "\<not> (pm_cf (the (pmis_loop 2 2 sym_A sym_omega sym_S sym_st)) ! 0 = 1 \<and>
      pm_cf (the (pmis_loop 2 2 sym_A sym_omega sym_S sym_st)) ! 1 = 1)"
    by (simp add: st')
  have g: "nrow ex_A \<le> 4" "pm_cf ex_st = replicate (nrow ex_A) 0" "(2::nat) < nrow ex_A"
    "ex_omega ! 2 < ex_omega ! 0"
    by (simp_all add: ex_A_def ex_st_def ex_omega_def) code_simp
  have f: "strong_edge ex_A ex_S 2 0"
    unfolding strong_edge_def row_range_def
    by (rule bexI [of _ 4]) (simp_all add: ex_A_def ex_S_def)
  have nf: "\<not> strong_edge ex_A ex_S 0 2"
    unfolding strong_edge_def row_range_def
    by (auto simp: ex_A_def ex_S_def nth_Cons' less_Suc_eq numeral_2_eq_2)
  from pmis_coarse_pairs_exclusive [OF h(1) g(1) ex_wf g(2)] obtain st2 where
    st2: "pmis_loop 2 4 ex_A ex_omega ex_S ex_st = Some st2"
    and q: "\<forall>r c. r < nrow ex_A \<and> strong_edge ex_A ex_S r c \<and> ex_omega ! r \<noteq> ex_omega ! c \<and>
                 (ex_omega ! r < ex_omega ! c \<or> strong_edge ex_A ex_S c r) \<longrightarrow>
                 \<not> (pm_cf st2 ! r = 1 \<and> pm_cf st2 ! c = 1)"
    by blast
  have "\<not> (pm_cf st2 ! 2 = 1 \<and> pm_cf st2 ! 0 = 1)"
    using q [rule_format, of 2 0] g(3,4) f by simp
  then have b: "\<not> (pm_cf (the (pmis_loop 2 4 ex_A ex_omega ex_S ex_st)) ! 2 = 1 \<and>
      pm_cf (the (pmis_loop 2 4 ex_A ex_omega ex_S ex_st)) ! 0 = 1)"
    by (simp add: st2)
  show ?thesis by (intro conjI h e a g ex_wf f nf b)
qed
section \<open>Direct interpolation\<close>





lemma direct_fill_fold:
  fixes P :: prolong and A :: csr and S :: "bool list" and cf :: "int list"
    and Amin Amax :: "real list" and row :: nat
  defines "ks \<equiv> \<lambda>js. filter (direct_keeps A S cf (Amin ! row) (Amax ! row)) js"
  assumes "\<forall>i. 0 < i \<and> i \<le> length (ks js) \<longrightarrow> to_I (rP + i) = rP + i"
  shows "(case fold (direct_interp_fill_step to_I A S cf Amin Amax f2c row alpha beta) js (rP, P) of
      (rP', P') \<Rightarrow>
        rP' = rP + length (ks js) \<and>
        length (prolong_csr_col_ind P') = length (prolong_csr_col_ind P) \<and>
        length (prolong_csr_val P') = length (prolong_csr_val P) \<and>
        (\<forall>i. i < rP \<or> rP + length (ks js) \<le> i \<longrightarrow>
           prolong_csr_col_ind P' ! i = prolong_csr_col_ind P ! i \<and>
           prolong_csr_val P' ! i = prolong_csr_val P ! i) \<and>
        (\<forall>i<length (ks js). rP + i < length (prolong_csr_col_ind P) \<longrightarrow>
           prolong_csr_col_ind P' ! (rP + i) = f2c ! (csr_col_ind A ! (ks js ! i))) \<and>
        (\<forall>i<length (ks js). rP + i < length (prolong_csr_val P) \<longrightarrow>
           prolong_csr_val P' ! (rP + i) =
             (if csr_val A ! (ks js ! i) < 0 then alpha else beta) * csr_val A ! (ks js ! i)))"
  using assms(2)
proof (induction js arbitrary: rP P)
  case Nil
  then show ?case by (simp add: ks_def)
next
  case (Cons j js)
  show ?case
  proof (cases "direct_keeps A S cf (Amin ! row) (Amax ! row) j")
    case False
    then have step: "direct_interp_fill_step to_I A S cf Amin Amax f2c row alpha beta j (rP, P) = (rP, P)"
      by (auto simp: direct_interp_fill_step_def direct_keeps_def Let_def)
    have ks: "ks (j # js) = ks js" using False by (simp add: ks_def)
    have pre: "\<forall>i. 0 < i \<and> i \<le> length (ks js) \<longrightarrow> to_I (rP + i) = rP + i"
      using Cons.prems unfolding ks .
    show ?thesis using Cons.IH [OF pre, of P] by (simp add: step ks)
  next
    case True
    let ?v = "(if csr_val A ! j < 0 then alpha else beta) * csr_val A ! j"
    let ?P1 = "P\<lparr>prolong_csr_col_ind := (prolong_csr_col_ind P)[rP := f2c ! (csr_col_ind A ! j)],
                  prolong_csr_val := (prolong_csr_val P)[rP := ?v]\<rparr>"
    have ks: "ks (j # js) = j # ks js" using True by (simp add: ks_def)
    have nw: "to_I (rP + 1) = rP + 1" using Cons.prems [rule_format, of 1] by (simp add: ks)
    have step: "direct_interp_fill_step to_I A S cf Amin Amax f2c row alpha beta j (rP, P) = (rP + 1, ?P1)"
      using True nw by (auto simp: direct_interp_fill_step_def direct_keeps_def Let_def)
    have pre: "\<forall>i. 0 < i \<and> i \<le> length (ks js) \<longrightarrow> to_I (rP + 1 + i) = rP + 1 + i"
    proof (intro allI impI)
      fix i assume "0 < i \<and> i \<le> length (ks js)"
      then have "0 < Suc i \<and> Suc i \<le> length (ks (j # js))" by (simp add: ks)
      from Cons.prems [rule_format, OF this] show "to_I (rP + 1 + i) = rP + 1 + i" by simp
    qed
    obtain rP' P' where r: "fold (direct_interp_fill_step to_I A S cf Amin Amax f2c row alpha beta) js (rP + 1, ?P1) = (rP', P')"
      by (cases "fold (direct_interp_fill_step to_I A S cf Amin Amax f2c row alpha beta) js (rP + 1, ?P1)")
    note ih = Cons.IH [OF pre, of ?P1, unfolded r, simplified]
    have a: "rP' = rP + length (ks (j # js))" using ih by (simp add: ks)
    have l: "length (prolong_csr_col_ind P') = length (prolong_csr_col_ind P)"
            "length (prolong_csr_val P') = length (prolong_csr_val P)" using ih by simp_all
    have out: "prolong_csr_col_ind P' ! i = prolong_csr_col_ind P ! i \<and>
           prolong_csr_val P' ! i = prolong_csr_val P ! i"
      if "i < rP \<or> rP + length (ks (j # js)) \<le> i" for i
    proof -
      have "i < rP + 1 \<or> rP + 1 + length (ks js) \<le> i" using that by (auto simp: ks)
      then have "prolong_csr_col_ind P' ! i = prolong_csr_col_ind ?P1 ! i \<and>
           prolong_csr_val P' ! i = prolong_csr_val ?P1 ! i" using ih by auto
      moreover have "i \<noteq> rP" using that by (auto simp: ks)
      ultimately show ?thesis by simp
    qed
    have first: "prolong_csr_col_ind P' ! rP = prolong_csr_col_ind ?P1 ! rP \<and>
        prolong_csr_val P' ! rP = prolong_csr_val ?P1 ! rP"
      using ih by auto
    have inn: "prolong_csr_col_ind P' ! (rP + i) = f2c ! (csr_col_ind A ! (ks (j # js) ! i))"
      if "i < length (ks (j # js))" "rP + i < length (prolong_csr_col_ind P)" for i
    proof (cases i)
      case 0
      then show ?thesis using that first by (simp add: ks)
    next
      case (Suc i')
      have "prolong_csr_col_ind P' ! (rP + 1 + i') = f2c ! (csr_col_ind A ! (ks js ! i'))"
        using ih that Suc by (simp add: ks)
      then show ?thesis using Suc by (simp add: ks)
    qed
    have inv: "prolong_csr_val P' ! (rP + i) =
        (if csr_val A ! (ks (j # js) ! i) < 0 then alpha else beta) * csr_val A ! (ks (j # js) ! i)"
      if "i < length (ks (j # js))" "rP + i < length (prolong_csr_val P)" for i
    proof (cases i)
      case 0
      then show ?thesis using that first by (simp add: ks)
    next
      case (Suc i')
      have "prolong_csr_val P' ! (rP + 1 + i') =
          (if csr_val A ! (ks js ! i') < 0 then alpha else beta) * csr_val A ! (ks js ! i')"
        using ih that Suc by (simp add: ks)
      then show ?thesis using Suc by (simp add: ks)
    qed
    show ?thesis unfolding fold_simps step r using a l out inn inv by simp
  qed
qed

text \<open>The thread of a row that is not Coarse, in closed form.\<close>

lemma direct_fill_row_closed:
  fixes P :: prolong and A :: csr and S :: "bool list" and cf :: "int list"
    and Amin Amax :: "real list" and row :: nat and rp f2c :: "nat list"
    and to_I :: "nat \<Rightarrow> nat"
  defines "kept \<equiv> filter (direct_keeps A S cf (Amin ! row) (Amax ! row))
                     [csr_row_ptr A ! row..<csr_row_ptr A ! (row + 1)]"
  defines "p \<equiv> to_I (rp ! row)"
  defines "res \<equiv> direct_interp_fill_row to_I A rp S cf Amin Amax f2c row P"
  defines "ab \<equiv> direct_interp_fill_coeffs A S cf Amin Amax row"
  assumes "\<forall>i. 0 < i \<and> i \<le> length kept \<longrightarrow> to_I (p + i) = p + i"
  shows "fst res = p + length kept"
    and "length (prolong_csr_col_ind (snd res)) = length (prolong_csr_col_ind P)"
    and "length (prolong_csr_val (snd res)) = length (prolong_csr_val P)"
    and "\<And>i. i < p \<or> p + length kept \<le> i \<Longrightarrow>
           prolong_csr_col_ind (snd res) ! i = prolong_csr_col_ind P ! i \<and>
           prolong_csr_val (snd res) ! i = prolong_csr_val P ! i"
    and "\<And>i. i < length kept \<Longrightarrow> p + i < length (prolong_csr_col_ind P) \<Longrightarrow>
           prolong_csr_col_ind (snd res) ! (p + i) = f2c ! (csr_col_ind A ! (kept ! i))"
    and "\<And>i. i < length kept \<Longrightarrow> p + i < length (prolong_csr_val P) \<Longrightarrow>
           prolong_csr_val (snd res) ! (p + i) =
             (if csr_val A ! (kept ! i) < 0 then fst ab else snd ab) * csr_val A ! (kept ! i)"
proof -
  let ?js = "[csr_row_ptr A ! row..<csr_row_ptr A ! (row + 1)]"
  obtain alpha beta where ab: "ab = (alpha, beta)" by (cases ab)
  obtain rP' P' where res: "res = (rP', P')" by (cases res)
  have f: "fold (direct_interp_fill_step to_I A S cf Amin Amax f2c row alpha beta) ?js (p, P) = (rP', P')"
    using res unfolding res_def direct_interp_fill_row_def Let_def ab [unfolded ab_def] prod.case p_def .
  note t = direct_fill_fold [where A = A and S = S and cf = cf and Amin = Amin and Amax = Amax
      and ?f2c = f2c and row = row and alpha = alpha and beta = beta and js = ?js and rP = p
      and P = P and to_I = to_I, folded kept_def, OF assms(5), unfolded f prod.case]
  show "fst res = p + length kept" using t by (simp add: res)
  show "length (prolong_csr_col_ind (snd res)) = length (prolong_csr_col_ind P)"
    using t by (simp add: res)
  show "length (prolong_csr_val (snd res)) = length (prolong_csr_val P)"
    using t by (simp add: res)
  show "\<And>i. i < p \<or> p + length kept \<le> i \<Longrightarrow>
           prolong_csr_col_ind (snd res) ! i = prolong_csr_col_ind P ! i \<and>
           prolong_csr_val (snd res) ! i = prolong_csr_val P ! i"
    using t unfolding res snd_conv by blast
  show "\<And>i. i < length kept \<Longrightarrow> p + i < length (prolong_csr_col_ind P) \<Longrightarrow>
           prolong_csr_col_ind (snd res) ! (p + i) = f2c ! (csr_col_ind A ! (kept ! i))"
    using t unfolding res snd_conv by blast
  show "\<And>i. i < length kept \<Longrightarrow> p + i < length (prolong_csr_val P) \<Longrightarrow>
           prolong_csr_val (snd res) ! (p + i) =
             (if csr_val A ! (kept ! i) < 0 then fst ab else snd ab) * csr_val A ! (kept ! i)"
    using t unfolding res snd_conv ab fst_conv by blast
qed









section \<open>Compression\<close>

lemma compress_scan_fold:
  "fold (compress_fill_scan_step A) js (m, s) =
     (fold (\<lambda>j m. max m \<bar>csr_val A ! j\<bar>) js m, s + sum_list (map (\<lambda>j. csr_val A ! j) js))"
  by (induction js arbitrary: m s) (simp_all add: compress_fill_scan_step_def Let_def)

lemma fold_max_Max:
  fixes m :: real
  shows "fold (\<lambda>j m. max m (g j)) js m = Max (insert m (g ` set js))"
proof (induction js arbitrary: m)
  case Nil
  then show ?case by simp
next
  case (Cons j js)
  have "Max (insert (max m (g j)) (g ` set js)) = Max (insert m (insert (g j) (g ` set js)))"
  proof (cases "set js = {}")
    case True
    then show ?thesis by (simp add: max.commute)
  next
    case False
    then have ne: "g ` set js \<noteq> {}" by simp
    have "Max (insert (max m (g j)) (g ` set js)) = max (max m (g j)) (Max (g ` set js))"
      using ne by simp
    moreover have "Max (insert m (insert (g j) (g ` set js))) = max m (max (g j) (Max (g ` set js)))"
      using ne by simp
    ultimately show ?thesis by (simp add: max.assoc)
  qed
  then show ?case using Cons by simp
qed

lemma compress_keep_fold:
  fixes C :: compressed and A :: csr and th :: real
  defines "ks \<equiv> \<lambda>js. filter (\<lambda>j. \<bar>csr_val A ! j\<bar> \<ge> th) js"
  shows "(case fold (compress_fill_keep_step A th b) js (n, s, C) of
      (n', s', C') \<Rightarrow>
        n' = n + length (ks js) \<and>
        s' = s + sum_list (map (\<lambda>j. csr_val A ! j) (ks js)) \<and>
        length (comp_csr_col_ind C') = length (comp_csr_col_ind C) \<and>
        length (comp_csr_val C') = length (comp_csr_val C) \<and>
        (\<forall>i. i < b + n \<or> b + n + length (ks js) \<le> i \<longrightarrow>
           comp_csr_col_ind C' ! i = comp_csr_col_ind C ! i \<and>
           comp_csr_val C' ! i = comp_csr_val C ! i) \<and>
        (\<forall>i<length (ks js). b + n + i < length (comp_csr_val C) \<longrightarrow>
           comp_csr_val C' ! (b + n + i) = csr_val A ! (ks js ! i)) \<and>
        (\<forall>i<length (ks js). b + n + i < length (comp_csr_col_ind C) \<longrightarrow>
           comp_csr_col_ind C' ! (b + n + i) = csr_col_ind A ! (ks js ! i)))"
proof (induction js arbitrary: n s C)
  case Nil
  then show ?case by (simp add: ks_def)
next
  case (Cons j js)
  show ?case
  proof (cases "\<bar>csr_val A ! j\<bar> \<ge> th")
    case False
    then have step: "compress_fill_keep_step A th b j (n, s, C) = (n, s, C)"
      by (simp add: compress_fill_keep_step_def Let_def)
    have ks: "ks (j # js) = ks js" using False by (simp add: ks_def)
    show ?thesis using Cons [of n s C] by (simp add: step ks)
  next
    case True
    let ?C1 = "C\<lparr>comp_csr_col_ind := (comp_csr_col_ind C)[b + n := csr_col_ind A ! j],
                  comp_csr_val := (comp_csr_val C)[b + n := csr_val A ! j]\<rparr>"
    have step: "compress_fill_keep_step A th b j (n, s, C) = (n + 1, s + csr_val A ! j, ?C1)"
      using True by (simp add: compress_fill_keep_step_def Let_def)
    have ks: "ks (j # js) = j # ks js" using True by (simp add: ks_def)
    obtain n' s' C' where r: "fold (compress_fill_keep_step A th b) js (n + 1, s + csr_val A ! j, ?C1) = (n', s', C')"
      by (cases "fold (compress_fill_keep_step A th b) js (n + 1, s + csr_val A ! j, ?C1)")
    note ih = Cons [of "n + 1" "s + csr_val A ! j" ?C1, unfolded r, simplified]
    have a: "n' = n + length (ks (j # js))"
      "s' = s + sum_list (map (\<lambda>j. csr_val A ! j) (ks (j # js)))" using ih by (simp_all add: ks)
    have l: "length (comp_csr_col_ind C') = length (comp_csr_col_ind C)"
            "length (comp_csr_val C') = length (comp_csr_val C)" using ih by simp_all
    have out: "comp_csr_col_ind C' ! i = comp_csr_col_ind C ! i \<and>
           comp_csr_val C' ! i = comp_csr_val C ! i"
      if "i < b + n \<or> b + n + length (ks (j # js)) \<le> i" for i
    proof -
      have "i < Suc (b + n) \<or> Suc (b + n + length (ks js)) \<le> i" using that by (auto simp: ks)
      then have "comp_csr_col_ind C' ! i = comp_csr_col_ind ?C1 ! i \<and>
           comp_csr_val C' ! i = comp_csr_val ?C1 ! i" using ih by auto
      moreover have "i \<noteq> b + n" using that by (auto simp: ks)
      ultimately show ?thesis by simp
    qed
    have inn: "comp_csr_val C' ! (b + n + i) = csr_val A ! (ks (j # js) ! i)"
      if "i < length (ks (j # js))" "b + n + i < length (comp_csr_val C)" for i
    proof (cases i)
      case 0
      have "comp_csr_val C' ! (b + n) = comp_csr_val ?C1 ! (b + n)" using ih by auto
      then show ?thesis using that 0 by (simp add: ks)
    next
      case (Suc i')
      have "comp_csr_val C' ! (Suc (b + n + i')) = csr_val A ! (ks js ! i')"
        using ih that Suc by (simp add: ks)
      then show ?thesis using Suc by (simp add: ks)
    qed
    have inc: "comp_csr_col_ind C' ! (b + n + i) = csr_col_ind A ! (ks (j # js) ! i)"
      if "i < length (ks (j # js))" "b + n + i < length (comp_csr_col_ind C)" for i
    proof (cases i)
      case 0
      have "comp_csr_col_ind C' ! (b + n) = comp_csr_col_ind ?C1 ! (b + n)" using ih by auto
      then show ?thesis using that 0 by (simp add: ks)
    next
      case (Suc i')
      have "comp_csr_col_ind C' ! (Suc (b + n + i')) = csr_col_ind A ! (ks js ! i')"
        using ih that Suc by (simp add: ks)
      then show ?thesis using Suc by (simp add: ks)
    qed
    show ?thesis unfolding fold_simps step r using a l out inn inc by simp
  qed
qed

lemma compress_scale_fold:
  "comp_csr_col_ind (fold (compress_fill_scale_step c) js C) = comp_csr_col_ind C \<and>
   length (comp_csr_val (fold (compress_fill_scale_step c) js C)) = length (comp_csr_val C) \<and>
   (distinct js \<longrightarrow> (\<forall>i<length (comp_csr_val C).
      comp_csr_val (fold (compress_fill_scale_step c) js C) ! i =
        (if i \<in> set js then comp_csr_val C ! i * c else comp_csr_val C ! i)))"
proof (induction js arbitrary: C)
  case Nil
  then show ?case by simp
next
  case (Cons j js)
  show ?case
    using Cons [of "compress_fill_scale_step c j C"]
    by (auto simp: compress_fill_scale_step_def nth_upd)
qed

lemma sum_list_row_slice:
  fixes xs :: "real list"
  assumes "b + n \<le> length xs"
  shows "sum_list (row_slice b (b + n) xs) = (\<Sum>i<n. xs ! (b + i))"
proof -
  have "row_slice b (b + n) xs = map (\<lambda>i. xs ! (b + i)) [0..<n]"
    unfolding row_slice_def
    by (rule nth_equalityI) (use assms in auto)
  then show ?thesis by (simp add: sum_list_sum_nth atLeast0LessThan)
qed

lemma compress_thread_row:
  fixes C :: compressed
  assumes "row < nrow A"
    and "crp ! (row + 1) = crp ! row + length (compress_kept A trunc row)"
    and "crp ! row + length (compress_kept A trunc row) \<le> length (comp_csr_val C)"
  defines "C' \<equiv> compress_fill_thread A trunc crp row C"
  shows "length (comp_csr_val C') = length (comp_csr_val C)"
    and "length (comp_csr_col_ind C') = length (comp_csr_col_ind C)"
    and "\<And>i. i < crp ! row \<or> crp ! (row + 1) \<le> i \<Longrightarrow> i < length (comp_csr_val C) \<Longrightarrow>
           comp_csr_val C' ! i = comp_csr_val C ! i \<and> comp_csr_col_ind C' ! i = comp_csr_col_ind C ! i"
    and "\<And>i. i < length (compress_kept A trunc row) \<Longrightarrow>
           comp_csr_val C' ! (crp ! row + i) =
             csr_val A ! (compress_kept A trunc row ! i) * compress_scale A trunc row"
proof -
  let ?js = "[csr_row_ptr A ! row..<csr_row_ptr A ! (row + 1)]"
  let ?th = "compress_threshold A trunc row"
  let ?b = "crp ! row"
  let ?ks = "compress_kept A trunc row"
  obtain row_max row_sum where scan: "fold (compress_fill_scan_step A) ?js (0, 0) = (row_max, row_sum)"
    by (cases "fold (compress_fill_scan_step A) ?js (0, 0)")
  have th: "row_max * trunc = ?th" unfolding compress_threshold_def scan by simp
  have rs: "row_sum = sum_list (map (\<lambda>j. csr_val A ! j) ?js)"
    using scan unfolding compress_scan_fold by simp
  obtain n s C1 where keep: "fold (compress_fill_keep_step A ?th ?b) ?js (0, 0, C) = (n, s, C1)"
    by (cases "fold (compress_fill_keep_step A ?th ?b) ?js (0, 0, C)")
  note k = compress_keep_fold [where A = A and th = ?th and b = ?b and js = ?js and n = 0
      and s = 0 and C = C, unfolded keep prod.case, folded compress_kept_def]
  have sc: "row_sum / s = compress_scale A trunc row"
    using k rs by (simp add: compress_scale_def)
  have C': "C' = fold (compress_fill_scale_step (compress_scale A trunc row))
      [?b..<?b + length ?ks] C1"
    unfolding C'_def compress_fill_thread_def Let_def scan prod.case th keep sc assms(2)
    using assms(1) by simp
  note f = compress_scale_fold [of "compress_scale A trunc row" "[?b..<?b + length ?ks]" C1,
      folded C']
  show "length (comp_csr_val C') = length (comp_csr_val C)" using f k by simp
  show "length (comp_csr_col_ind C') = length (comp_csr_col_ind C)" using f k by simp
  show "comp_csr_val C' ! i = comp_csr_val C ! i \<and> comp_csr_col_ind C' ! i = comp_csr_col_ind C ! i"
    if "i < crp ! row \<or> crp ! (row + 1) \<le> i" "i < length (comp_csr_val C)" for i
  proof -
    have "comp_csr_val C' ! i = comp_csr_val C1 ! i" using f k that assms(2) by auto
    then show ?thesis using f k that assms(2) by auto
  qed
  show "comp_csr_val C' ! (crp ! row + i) = csr_val A ! (?ks ! i) * compress_scale A trunc row"
    if "i < length ?ks" for i
  proof -
    have lt: "?b + i < length (comp_csr_val C)" using that assms(3) by simp
    have "comp_csr_val C1 ! (?b + i) = csr_val A ! (?ks ! i)" using k that lt by simp
    moreover have "comp_csr_val C' ! (?b + i) = comp_csr_val C1 ! (?b + i) * compress_scale A trunc row"
      using f k lt that by simp
    ultimately show ?thesis by simp
  qed
qed

lemma compress_kernel_rows:
  fixes C :: compressed
  assumes alloc: "\<forall>r<nrow A. crp ! (r + 1) = crp ! r + length (compress_kept A trunc r)"
    and fit: "crp ! nrow A \<le> length (comp_csr_val C)"
  shows "k \<le> nrow A \<Longrightarrow>
     length (comp_csr_val (fold (compress_fill_thread A trunc crp) [0..<k] C)) = length (comp_csr_val C) \<and>
     (\<forall>r<k. \<forall>i<length (compress_kept A trunc r).
        comp_csr_val (fold (compress_fill_thread A trunc crp) [0..<k] C) ! (crp ! r + i) =
          csr_val A ! (compress_kept A trunc r ! i) * compress_scale A trunc r)"
proof (induction k)
  case 0
  then show ?case by simp
next
  case (Suc k)
  let ?Ck = "fold (compress_fill_thread A trunc crp) [0..<k] C"
  have mono: "a \<le> b \<Longrightarrow> b \<le> nrow A \<Longrightarrow> crp ! a \<le> crp ! b" for a b
  proof (induction b)
    case 0
    then show ?case by simp
  next
    case (Suc b)
    show ?case
    proof (cases "a = Suc b")
      case True
      then show ?thesis by simp
    next
      case False
      then have "crp ! a \<le> crp ! b" using Suc by simp
      moreover have "crp ! b \<le> crp ! Suc b" using alloc Suc.prems by simp
      ultimately show ?thesis by simp
    qed
  qed
  have k: "k < nrow A" using Suc.prems by simp
  have ih: "length (comp_csr_val ?Ck) = length (comp_csr_val C)"
    "\<And>r i. r < k \<Longrightarrow> i < length (compress_kept A trunc r) \<Longrightarrow>
        comp_csr_val ?Ck ! (crp ! r + i) = csr_val A ! (compress_kept A trunc r ! i) * compress_scale A trunc r"
    using Suc by simp_all
  have a: "crp ! (k + 1) = crp ! k + length (compress_kept A trunc k)" using alloc k by simp
  have "crp ! (k + 1) \<le> crp ! nrow A" using mono [of "k + 1" "nrow A"] k by simp
  then have b: "crp ! k + length (compress_kept A trunc k) \<le> length (comp_csr_val ?Ck)"
    using a fit ih(1) by simp
  note t = compress_thread_row [OF k a b]
  have old: "comp_csr_val (compress_fill_thread A trunc crp k ?Ck) ! (crp ! r + i) =
      csr_val A ! (compress_kept A trunc r ! i) * compress_scale A trunc r"
    if "r < k" "i < length (compress_kept A trunc r)" for r i
  proof -
    have "crp ! (r + 1) = crp ! r + length (compress_kept A trunc r)" using alloc that k by simp
    moreover have "crp ! (r + 1) \<le> crp ! k" using mono [of "r + 1" k] that k by simp
    ultimately have lt: "crp ! r + i < crp ! k" using that by simp
    then have "crp ! r + i < length (comp_csr_val ?Ck)" using b by simp
    from t(3) [OF _ this] lt ih(2) [OF that] show ?thesis by simp
  qed
  show ?case using t(1,4) ih(1) old by (auto simp: less_Suc_eq)
qed

text \<open>
  C9. Let the row pointer of the compressed matrix allot every row as many entries as
  the row keeps (those of magnitude at least the truncation ratio times the largest
  magnitude of the row), within the value array. Then, for every row whose kept entries
  have a nonzero sum, the values of the compressed row after the kernel sum up to the sum
  of the values of the uncompressed row. Values are exact reals here.
\<close>

theorem compress_row_sum_preserved:
  fixes C :: compressed and comp_csr_row_ptr :: "nat list"
  assumes "nrow A \<le> grid"
    and "\<forall>r<nrow A. comp_csr_row_ptr ! (r + 1) =
            comp_csr_row_ptr ! r + length (compress_kept A trunc r)"
    and "comp_csr_row_ptr ! nrow A \<le> length (comp_csr_val C)"
    and "row < nrow A"
    and "sum_list (map (\<lambda>j. csr_val A ! j) (compress_kept A trunc row)) \<noteq> 0"
  shows "sum_list (row_slice (comp_csr_row_ptr ! row) (comp_csr_row_ptr ! (row + 1))
           (comp_csr_val (kernel_csr_rs_extpi_interp_compress_fill grid A trunc comp_csr_row_ptr C)))
         = sum_list (map (\<lambda>j. csr_val A ! j) [csr_row_ptr A ! row..<csr_row_ptr A ! (row + 1)]) \<and>
         compress_threshold A trunc row =
           Max (insert 0 ((\<lambda>j. \<bar>csr_val A ! j\<bar>) `
                  {csr_row_ptr A ! row..<csr_row_ptr A ! (row + 1)})) * trunc"
proof -
  let ?C' = "kernel_csr_rs_extpi_interp_compress_fill grid A trunc comp_csr_row_ptr C"
  let ?ks = "compress_kept A trunc row"
  let ?b = "comp_csr_row_ptr ! row"
  have eq: "?C' = fold (compress_fill_thread A trunc comp_csr_row_ptr) [0..<nrow A] C"
    unfolding kernel_csr_rs_extpi_interp_compress_fill_def
    by (rule fold_upt_guard) (simp_all add: compress_fill_thread_def assms(1))
  note r = compress_kernel_rows [OF assms(2,3), of "nrow A", folded eq, simplified]
  have len: "length (comp_csr_val ?C') = length (comp_csr_val C)" using r by simp
  have vals: "comp_csr_val ?C' ! (?b + i) = csr_val A ! (?ks ! i) * compress_scale A trunc row"
    if "i < length ?ks" for i using r that assms(4) by simp
  have a: "comp_csr_row_ptr ! (row + 1) = ?b + length ?ks" using assms(2,4) by simp
  have mono: "c \<le> d \<Longrightarrow> d \<le> nrow A \<Longrightarrow> comp_csr_row_ptr ! c \<le> comp_csr_row_ptr ! d" for c d
  proof (induction d)
    case 0
    then show ?case by simp
  next
    case (Suc d)
    show ?case
    proof (cases "c = Suc d")
      case True
      then show ?thesis by simp
    next
      case False
      then have "comp_csr_row_ptr ! c \<le> comp_csr_row_ptr ! d" using Suc by simp
      moreover have "comp_csr_row_ptr ! d \<le> comp_csr_row_ptr ! Suc d" using assms(2) Suc.prems by simp
      ultimately show ?thesis by simp
    qed
  qed
  have "comp_csr_row_ptr ! (row + 1) \<le> comp_csr_row_ptr ! nrow A"
    using mono [of "row + 1" "nrow A"] assms(4) by simp
  then have fit: "?b + length ?ks \<le> length (comp_csr_val ?C')" using a assms(3) len by simp
  have "sum_list (row_slice ?b (comp_csr_row_ptr ! (row + 1)) (comp_csr_val ?C')) =
      (\<Sum>i<length ?ks. comp_csr_val ?C' ! (?b + i))"
    unfolding a by (rule sum_list_row_slice [OF fit])
  also have "\<dots> = (\<Sum>i<length ?ks. csr_val A ! (?ks ! i) * compress_scale A trunc row)"
    by (rule sum.cong) (simp_all add: vals)
  also have "\<dots> = (\<Sum>i<length ?ks. csr_val A ! (?ks ! i)) * compress_scale A trunc row"
    by (simp add: sum_distrib_right)
  also have "(\<Sum>i<length ?ks. csr_val A ! (?ks ! i)) = sum_list (map (\<lambda>j. csr_val A ! j) ?ks)"
    by (simp add: sum_list_sum_nth atLeast0LessThan)
  also have "sum_list (map (\<lambda>j. csr_val A ! j) ?ks) * compress_scale A trunc row =
      sum_list (map (\<lambda>j. csr_val A ! j) [csr_row_ptr A ! row..<csr_row_ptr A ! (row + 1)])"
    using assms(5) by (simp add: compress_scale_def)
  finally have sum: "sum_list (row_slice ?b (comp_csr_row_ptr ! (row + 1)) (comp_csr_val ?C')) =
      sum_list (map (\<lambda>j. csr_val A ! j) [csr_row_ptr A ! row..<csr_row_ptr A ! (row + 1)])" .
  have th: "compress_threshold A trunc row =
           Max (insert 0 ((\<lambda>j. \<bar>csr_val A ! j\<bar>) `
                  {csr_row_ptr A ! row..<csr_row_ptr A ! (row + 1)})) * trunc"
    unfolding compress_threshold_def compress_scan_fold fst_conv fold_max_Max by simp
  show ?thesis using sum th by (rule conjI)
qed

theorem compress_row_sum_preserved_witness:
  "nrow cmp_A \<le> 2 \<and>
   [0, 2, 3] ! 1 = [0, 2, 3] ! 0 + length (compress_kept cmp_A (1/2) 0) \<and>
   [0, 2, 3] ! 2 = [0, 2, 3] ! 1 + length (compress_kept cmp_A (1/2) 1) \<and>
   [0, 2, 3] ! nrow cmp_A \<le> length (comp_csr_val cmp_C) \<and> (0::nat) < nrow cmp_A \<and>
   sum_list (map (\<lambda>j. csr_val cmp_A ! j) (compress_kept cmp_A (1/2) 0)) \<noteq> 0 \<and>
   sum_list (row_slice ([0, 2, 3] ! 0) ([0, 2, 3] ! (0 + 1))
      (comp_csr_val (kernel_csr_rs_extpi_interp_compress_fill 2 cmp_A (1/2) [0, 2, 3] cmp_C)))
     = sum_list (map (\<lambda>j. csr_val cmp_A ! j) [csr_row_ptr cmp_A ! 0..<csr_row_ptr cmp_A ! (0 + 1)])"
proof -
  have k0: "compress_kept cmp_A (1/2) 0 = [0, 2]" by code_simp
  have k1: "compress_kept cmp_A (1/2) 1 = [3]" by code_simp
  have h1: "nrow cmp_A \<le> 2" "[0, 2, 3] ! nrow cmp_A \<le> length (comp_csr_val cmp_C)"
    "(0::nat) < nrow cmp_A" by (simp_all add: cmp_A_def cmp_C_def)
  have a0: "[0, 2, 3] ! 1 = [0, 2, 3] ! 0 + length (compress_kept cmp_A (1/2) 0)"
    and a1: "[0, 2, 3] ! 2 = [0, 2, 3] ! 1 + length (compress_kept cmp_A (1/2) 1)"
    unfolding k0 k1 by simp_all
  have h2: "\<forall>r<nrow cmp_A. [0, 2, 3] ! (r + 1) = [0, 2, 3] ! r + length (compress_kept cmp_A (1/2) r)"
    using a0 a1 by (simp add: cmp_A_def less_Suc_eq numeral_2_eq_2)
  have h3: "sum_list (map (\<lambda>j. csr_val cmp_A ! j) (compress_kept cmp_A (1/2) 0)) \<noteq> 0"
    unfolding k0 by (simp add: cmp_A_def)
  note t = compress_row_sum_preserved [OF h1(1) h2 h1(2,3) h3, THEN conjunct1]
  show ?thesis by (intro conjI h1 a0 a1 h3 t)
qed

section \<open>Extended+i estimate and count\<close>

lemma fold_rows_proj:
  assumes "\<And>r s. proj (step r s) = (if r < n then (proj s)[r := f r] else proj s)"
  shows "length (proj (fold step [0..<g] s)) = length (proj s) \<and>
     (\<forall>r<length (proj s). proj (fold step [0..<g] s) ! r = (if r < g \<and> r < n then f r else proj s ! r))"
proof (induction g)
  case 0
  then show ?case by simp
next
  case (Suc g)
  then show ?case by (auto simp: assms nth_upd less_Suc_eq)
qed

lemma set_insert_cases:
  "unordered_set_insert E hash key tbl = (new, tbl') \<Longrightarrow> (if new then 1 else 0) \<le> (1::nat)"
  by simp

lemma nnz_inner_le:
  "fst (extpi_nnz_inner E hash FF1 A S cf col_j ks (n, tbl)) + m \<le>
     extpi_max_inner FF1 A S cf col_j ks m + n"
proof (induction ks arbitrary: n tbl m)
  case Nil
  then show ?case by simp
next
  case (Cons k ks)
  obtain new tbl' where ins: "unordered_set_insert E hash (csr_col_ind A ! k) tbl = (new, tbl')"
    by (cases "unordered_set_insert E hash (csr_col_ind A ! k) tbl")
  show ?case
    using Cons [of n tbl m] Cons [of "n + (if new then 1 else 0)" tbl' "m + 1"]
    by (auto simp: Let_def ins)
qed

lemma nnz_step_le:
  "fst (extpi_nnz_step E hash FF1 A S cf row j (n, tbl)) + m \<le>
     extpi_max_step FF1 A S cf row j m + n"
proof -
  obtain new tbl' where ins: "unordered_set_insert E hash (csr_col_ind A ! j) tbl = (new, tbl')"
    by (cases "unordered_set_insert E hash (csr_col_ind A ! j) tbl")
  show ?thesis
    using nnz_inner_le [of E hash FF1 A S cf "csr_col_ind A ! j" _ n tbl m]
    by (auto simp: extpi_nnz_step_def extpi_max_step_def Let_def ins)
qed

lemma nnz_fold_le:
  "fst (fold (extpi_nnz_step E hash FF1 A S cf row) js (n, tbl)) + m \<le>
     fold (extpi_max_step FF1 A S cf row) js m + n"
proof (induction js arbitrary: n tbl m)
  case Nil
  then show ?case by simp
next
  case (Cons j js)
  obtain n1 tbl1 where s: "extpi_nnz_step E hash FF1 A S cf row j (n, tbl) = (n1, tbl1)"
    by (cases "extpi_nnz_step E hash FF1 A S cf row j (n, tbl)")
  have "n1 + m \<le> extpi_max_step FF1 A S cf row j m + n"
    using nnz_step_le [of E hash FF1 A S cf row j n tbl m] by (simp add: s)
  moreover have "fst (fold (extpi_nnz_step E hash FF1 A S cf row) js (n1, tbl1)) +
      extpi_max_step FF1 A S cf row j m \<le>
      fold (extpi_max_step FF1 A S cf row) js (extpi_max_step FF1 A S cf row j m) + n1"
    by (rule Cons)
  ultimately show ?case by (simp add: s)
qed

lemma nnz_lanes_le:
  "sum_list (fst (fold (extpi_nnz_lane W E hash FF1 A S cf row) ls (acc, tbl))) \<le>
     sum_list acc +
     sum_list (map (\<lambda>lid. fold (extpi_max_step FF1 A S cf row)
        (lane_indices W lid (csr_row_ptr A ! row) (csr_row_ptr A ! (row + 1))) 0) ls)"
proof (induction ls arbitrary: acc tbl)
  case Nil
  then show ?case by simp
next
  case (Cons l ls)
  let ?js = "lane_indices W l (csr_row_ptr A ! row) (csr_row_ptr A ! (row + 1))"
  obtain n1 tbl1 where s: "fold (extpi_nnz_step E hash FF1 A S cf row) ?js (0, tbl) = (n1, tbl1)"
    by (cases "fold (extpi_nnz_step E hash FF1 A S cf row) ?js (0, tbl)")
  have le: "n1 \<le> fold (extpi_max_step FF1 A S cf row) ?js 0"
    using nnz_fold_le [of E hash FF1 A S cf row ?js 0 tbl 0] unfolding s by simp
  have step: "extpi_nnz_lane W E hash FF1 A S cf row l (acc, tbl) = (acc @ [n1], tbl1)"
    unfolding extpi_nnz_lane_def prod.case s ..
  show ?case unfolding fold_simps step using Cons [of "acc @ [n1]" tbl1] le by simp
qed

lemma extpi_nnz_row_le: "extpi_nnz_row W H E hash FF1 A S cf row \<le> extpi_max_row W FF1 A S cf row"
  using nnz_lanes_le [of W E hash FF1 A S cf row "[0..<W]" "[]" "empty_set E H"]
  by (simp add: extpi_nnz_row_def extpi_max_row_def wf_reduce_sum_def)

lemma kernel_extpi_max_row:
  assumes "row < nrow A" "row < grid" "row < length row_max"
  shows "kernel_csr_rs_extpi_interp_max W grid FF1 A S cf row_max ! row = extpi_max_row W FF1 A S cf row"
proof -
  have step: "extpi_max_wavefront W FF1 A S cf r s =
      (if r < nrow A then s[r := extpi_max_row W FF1 A S cf r] else s)" for r s
    by (simp add: extpi_max_wavefront_def extpi_max_row_def Let_def)
  from fold_rows_proj [where proj = "\<lambda>s. s" and step = "extpi_max_wavefront W FF1 A S cf",
      OF step, of grid row_max]
  show ?thesis using assms by (simp add: kernel_csr_rs_extpi_interp_max_def)
qed

lemma kernel_extpi_nnz_row:
  assumes "row < nrow A" "row < grid" "row < length (ec_row_nnz st)"
  shows "ec_row_nnz (kernel_csr_rs_extpi_interp_nnz W H grid E hash FF1 A S cf st) ! row =
     extpi_nnz_row W H E hash FF1 A S cf row"
proof -
  have step: "ec_row_nnz (extpi_nnz_wavefront W H E hash FF1 A S cf r s) =
      (if r < nrow A then (ec_row_nnz s)[r := extpi_nnz_row W H E hash FF1 A S cf r] else ec_row_nnz s)" for r s
    by (simp add: extpi_nnz_wavefront_def extpi_nnz_row_def Let_def split: prod.splits)
  from fold_rows_proj [where proj = ec_row_nnz and step = "extpi_nnz_wavefront W H E hash FF1 A S cf",
      OF step, of grid st]
  show ?thesis using assms by (simp add: kernel_csr_rs_extpi_interp_nnz_def)
qed

text \<open>
  C7. For every row that both kernels process, whatever \<open>FF1\<close> is and whatever the hash
  set does with a key, the count that the count pass stores in \<open>row_nnz\<close> is at most the
  estimate that the estimate pass stores in \<open>row_max\<close>.
\<close>

theorem extpi_estimate_bounds_count:
  assumes "row < nrow A" "row < grid" "row < length row_max" "row < length (ec_row_nnz st)"
  shows "ec_row_nnz (kernel_csr_rs_extpi_interp_nnz WFSIZE HASHSIZE grid EMPTY hash FF1 A S cf st) ! row
         \<le> kernel_csr_rs_extpi_interp_max WFSIZE grid FF1 A S cf row_max ! row"
  unfolding kernel_extpi_max_row [OF assms(1,2,3)] kernel_extpi_nnz_row [OF assms(1,2,4)]
  by (rule extpi_nnz_row_le)

theorem extpi_estimate_bounds_count_witness:
  "(2::nat) < nrow ex_A \<and> (2::nat) < 4 \<and> 2 < length [0, 0, 0, 0::nat] \<and>
   2 < length (ec_row_nnz ex_ec) \<and>
   ec_row_nnz (kernel_csr_rs_extpi_interp_nnz 2 4 4 100 (\<lambda>k. k) False ex_A ex_S (pm_cf ex_final) ex_ec) ! 2
     \<le> kernel_csr_rs_extpi_interp_max 2 4 False ex_A ex_S (pm_cf ex_final) [0, 0, 0, 0] ! 2"
proof -
  have h: "(2::nat) < nrow ex_A" "(2::nat) < 4" "2 < length [0, 0, 0, 0::nat]"
    "2 < length (ec_row_nnz ex_ec)"
    by (simp_all add: ex_A_def ex_ec_def)
  note t = extpi_estimate_bounds_count [OF h, of 2 4 100 "\<lambda>k. k" False ex_S "pm_cf ex_final"]
  show ?thesis by (intro conjI h t)
qed

section \<open>Extended+i fill: divisors\<close>

lemma xor_exp_less:
  fixes l :: nat
  assumes "l < 2 ^ k" "j < k"
  shows "l XOR 2 ^ j < 2 ^ k"
proof -
  have "take_bit k (l XOR 2 ^ j) = take_bit k l XOR take_bit k (2 ^ j :: nat)"
    by (rule take_bit_xor)
  also have "\<dots> = l XOR 2 ^ j" using assms by (simp add: take_bit_of_exp take_bit_nat_eq_self)
  finally have "take_bit k (l XOR 2 ^ j) = l XOR 2 ^ j" .
  then show ?thesis by (rule take_bit_nat_eq_self_iff [THEN iffD1])
qed

lemma take_bit_xor_exp:
  fixes l :: nat
  shows "take_bit j (l XOR 2 ^ j) = take_bit j l"
  by (simp add: take_bit_xor take_bit_of_exp)

lemma bit_xor_exp:
  fixes l :: nat
  shows "bit (l XOR 2 ^ j) j \<longleftrightarrow> \<not> bit l j"
  by (simp add: bit_xor_iff bit_exp_iff)

lemma take_bit_Suc_eq_iff:
  fixes a b :: nat
  shows "take_bit (Suc j) a = take_bit (Suc j) b \<longleftrightarrow> take_bit j a = take_bit j b \<and> bit a j = bit b j"
proof -
  have "take_bit (Suc j) a = take_bit (Suc j) b \<longleftrightarrow>
      (\<forall>n. bit (take_bit (Suc j) a) n = bit (take_bit (Suc j) b) n)"
    by (simp add: bit_eq_iff)
  also have "\<dots> \<longleftrightarrow> (\<forall>n<Suc j. bit a n = bit b n)"
    by (auto simp: bit_take_bit_iff)
  also have "\<dots> \<longleftrightarrow> (\<forall>n<j. bit a n = bit b n) \<and> bit a j = bit b j"
    by (auto simp: less_Suc_eq)
  also have "(\<forall>n<j. bit a n = bit b n) \<longleftrightarrow> (\<forall>n. bit (take_bit j a) n = bit (take_bit j b) n)"
    by (auto simp: bit_take_bit_iff)
  also have "\<dots> \<longleftrightarrow> take_bit j a = take_bit j b"
    by (simp add: bit_eq_iff)
  finally show ?thesis .
qed

lemma lane_group_split:
  "lane_group N j l = lane_group N (Suc j) l \<union> lane_group N (Suc j) (l XOR 2 ^ j)"
  "lane_group N (Suc j) l \<inter> lane_group N (Suc j) (l XOR 2 ^ j) = {}"
  unfolding lane_group_def take_bit_Suc_eq_iff take_bit_xor_exp bit_xor_exp by auto

lemma shfl_xor_sum_groups:
  fixes v0 :: "real list"
  assumes "length v0 = 2 ^ k"
  shows "j \<le> k \<Longrightarrow> length vals = 2 ^ k \<Longrightarrow>
     (\<forall>l<2 ^ k. vals ! l = (\<Sum>l'\<in>lane_group (2 ^ k) j l. v0 ! l')) \<Longrightarrow>
     shfl_xor_sum (2 ^ j div 2) vals = replicate (2 ^ k) (sum_list v0)"
proof (induction j arbitrary: vals)
  case 0
  have all: "lane_group (2 ^ k) 0 l = {..<2 ^ k}" for l by (auto simp: lane_group_def)
  have "sum_list v0 = (\<Sum>l'<2 ^ k. v0 ! l')"
    using assms by (simp add: sum_list_sum_nth atLeast0LessThan)
  then have "vals = replicate (2 ^ k) (sum_list v0)"
    using 0 by (intro nth_equalityI) (simp_all add: all)
  then show ?case by (simp add: shfl_xor_sum.simps)
next
  case (Suc j)
  let ?i = "(2::nat) ^ j"
  let ?vals' = "map (\<lambda>lid. vals ! lid + vals ! (lid XOR ?i)) [0..<length vals]"
  have i: "(2::nat) ^ Suc j div 2 = ?i" by simp
  have jk: "j < k" using Suc.prems by simp
  have step: "shfl_xor_sum (2 ^ Suc j div 2) vals = shfl_xor_sum (?i div 2) ?vals'"
    unfolding i by (subst shfl_xor_sum.simps) simp
  have len: "length ?vals' = 2 ^ k" using Suc.prems by simp
  have inv: "\<forall>l<2 ^ k. ?vals' ! l = (\<Sum>l'\<in>lane_group (2 ^ k) j l. v0 ! l')"
  proof (intro allI impI)
    fix l :: nat assume l: "l < 2 ^ k"
    have lx: "l XOR ?i < 2 ^ k" by (rule xor_exp_less [OF l jk])
    have fin: "finite (lane_group (2 ^ k) (Suc j) x)" for x by (simp add: lane_group_def)
    have "?vals' ! l = vals ! l + vals ! (l XOR ?i)" using l Suc.prems by simp
    also have "\<dots> = (\<Sum>l'\<in>lane_group (2 ^ k) (Suc j) l. v0 ! l') +
        (\<Sum>l'\<in>lane_group (2 ^ k) (Suc j) (l XOR ?i). v0 ! l')"
      using Suc.prems(3) l lx by simp
    also have "\<dots> = (\<Sum>l'\<in>lane_group (2 ^ k) j l. v0 ! l')"
      unfolding lane_group_split(1) [of "2 ^ k" j l]
      by (rule sum.union_disjoint [symmetric]) (simp_all add: fin lane_group_split(2))
    finally show "?vals' ! l = (\<Sum>l'\<in>lane_group (2 ^ k) j l. v0 ! l')" .
  qed
  show ?case unfolding step by (rule Suc.IH) (use jk len inv in simp_all)
qed

lemma shfl_xor_sum_total:
  fixes vals :: "real list"
  assumes "length vals = 2 ^ k"
  shows "shfl_xor_sum (2 ^ k div 2) vals = replicate (2 ^ k) (sum_list vals)"
proof (rule shfl_xor_sum_groups [OF assms order_refl assms])
  show "\<forall>l<2 ^ k. vals ! l = (\<Sum>l'\<in>lane_group (2 ^ k) k l. vals ! l')"
  proof (intro allI impI)
    fix l :: nat assume l: "l < 2 ^ k"
    have "lane_group (2 ^ k) k l = {l}"
      using l by (auto simp: lane_group_def take_bit_nat_eq_self)
    then show "vals ! l = (\<Sum>l'\<in>lane_group (2 ^ k) k l. vals ! l')" by simp
  qed
qed

lemma dz_classified:
  "kernel_csr_rs_pmis_strong_influences 2 3 dz_A (1/4) (\<lambda>_. False) dz_ss =
     \<lparr>ss_omega = dz_omega, ss_S = dz_S\<rparr>"
  by code_simp

lemma dz_coarsened:
  "pmis_loop 2 3 dz_A dz_omega dz_S start3 =
     Some \<lparr>pm_cf = dz_cf, pm_workspace = [False, True, True], pm_undecided = False\<rparr>"
proof -
  have r: "pmis_round 2 3 dz_A dz_omega dz_S start3 =
     \<lparr>pm_cf = dz_cf, pm_workspace = [False, True, True], pm_undecided = False\<rparr>"
    by code_simp
  show ?thesis
    by (subst pmis_loop.simps) (simp only: r Let_def pmis_state.simps if_False)
qed

lemma dz_sum_l:
  "extpi_fill_sum_l 100 (\<lambda>k. k) dz_A dz_cf
     (extpi_fill_pattern 2 4 100 (\<lambda>k. k) False dz_A dz_S dz_cf 0) 0 (dz_diag ! 0 \<ge> 0)
     (csr_col_ind dz_A ! 1) = (0, 0)"
  by code_simp

lemma dd_classified:
  "kernel_csr_rs_pmis_strong_influences 2 3 dd_A (1/4) (\<lambda>_. False) dd_ss =
     \<lparr>ss_omega = dd_omega, ss_S = dd_S\<rparr>"
  by code_simp

lemma dd_coarsened:
  "pmis_loop 2 3 dd_A dd_omega dd_S start3 =
     Some \<lparr>pm_cf = dd_cf, pm_workspace = [True, True, False], pm_undecided = False\<rparr>"
proof -
  have r: "pmis_round 2 3 dd_A dd_omega dd_S start3 =
     \<lparr>pm_cf = dd_cf, pm_workspace = [True, True, False], pm_undecided = False\<rparr>"
    by code_simp
  show ?thesis
    by (subst pmis_loop.simps) (simp only: r Let_def pmis_state.simps if_False)
qed

lemma dd_denominators:
  "fst (extpi_fill_numeric 2 4 100 (\<lambda>k. k) False dd_A dd_diag dd_S dd_cf 0) = [0, 0]"
  by code_simp

lemma sum_l_fold:
  "fst (fold (extpi_fill_sum_l_step E hash A cf m row pos_ii) ls (s, v)) =
     s + sum_list (map (\<lambda>l. csr_val A ! l) (filter (sum_l_term E hash A cf m row pos_ii) ls))"
proof (induction ls arbitrary: s v)
  case Nil
  then show ?case by simp
next
  case (Cons l ls)
  obtain s1 v1 where st: "extpi_fill_sum_l_step E hash A cf m row pos_ii l (s, v) = (s1, v1)"
    by (cases "extpi_fill_sum_l_step E hash A cf m row pos_ii l (s, v)")
  have s1: "s1 = (if sum_l_term E hash A cf m row pos_ii l then s + csr_val A ! l else s)"
    using st by (auto simp: extpi_fill_sum_l_step_def sum_l_term_def Let_def split: if_splits)
  show ?case unfolding fold_simps st Cons.IH by (simp add: s1)
qed

lemma sum_list_same_sign:
  fixes xs :: "real list"
  assumes "(\<forall>x\<in>set xs. x < 0) \<or> (\<forall>x\<in>set xs. 0 \<le> x)"
  shows "sum_list xs \<noteq> 0 \<longleftrightarrow> (\<exists>x\<in>set xs. x \<noteq> 0)"
  using assms
proof
  assume neg: "\<forall>x\<in>set xs. x < 0"
  have "sum_list (map uminus xs) = 0 \<longleftrightarrow> (\<forall>x\<in>set (map uminus xs). x = 0)"
    by (rule sum_list_nonneg_eq_0_iff) (use neg in auto)
  moreover have "sum_list (map uminus xs) = - sum_list xs" by (induction xs) simp_all
  ultimately show ?thesis by auto
next
  assume "\<forall>x\<in>set xs. 0 \<le> x"
  then have "sum_list xs = 0 \<longleftrightarrow> (\<forall>x\<in>set xs. x = 0)"
    by (intro sum_list_nonneg_eq_0_iff) auto
  then show ?thesis by auto
qed

lemma extpi_sum_l_nonzero:
  "fst (extpi_fill_sum_l E hash A cf m row pos_ii col_ik) \<noteq> 0 \<longleftrightarrow>
     (\<exists>l\<in>{csr_row_ptr A ! col_ik..<csr_row_ptr A ! (col_ik + 1)}.
        csr_val A ! l \<noteq> 0 \<and> sum_l_term E hash A cf m row pos_ii l)"
proof -
  let ?ls = "[csr_row_ptr A ! col_ik..<csr_row_ptr A ! (col_ik + 1)]"
  let ?xs = "map (\<lambda>l. csr_val A ! l) (filter (sum_l_term E hash A cf m row pos_ii) ?ls)"
  have sign: "(\<forall>x\<in>set ?xs. x < 0) \<or> (\<forall>x\<in>set ?xs. 0 \<le> x)"
    by (cases pos_ii) (auto simp: sum_l_term_def)
  have "fst (extpi_fill_sum_l E hash A cf m row pos_ii col_ik) = sum_list ?xs"
    unfolding extpi_fill_sum_l_def sum_l_fold by simp
  then have "fst (extpi_fill_sum_l E hash A cf m row pos_ii col_ik) \<noteq> 0 \<longleftrightarrow>
      (\<exists>x\<in>set ?xs. x \<noteq> 0)"
    using sum_list_same_sign [OF sign] by simp
  also have "\<dots> \<longleftrightarrow> (\<exists>l\<in>{csr_row_ptr A ! col_ik..<csr_row_ptr A ! (col_ik + 1)}.
        csr_val A ! l \<noteq> 0 \<and> sum_l_term E hash A cf m row pos_ii l)"
    by auto
  finally show ?thesis .
qed

lemma numeric_lanes_length:
  "length (fst (fold (extpi_fill_numeric_lane W E hash A diag S cf row pos_ii) ls (acc, m))) =
     length acc + length ls"
proof (induction ls arbitrary: acc m)
  case Nil
  then show ?case by simp
next
  case (Cons l ls)
  obtain acc1 m1 where st: "extpi_fill_numeric_lane W E hash A diag S cf row pos_ii l (acc, m) = (acc1, m1)"
    by (cases "extpi_fill_numeric_lane W E hash A diag S cf row pos_ii l (acc, m)")
  have "length acc1 = length acc + 1"
    using st by (auto simp: extpi_fill_numeric_lane_def split: prod.splits)
  then show ?case unfolding fold_simps st Cons.IH by simp
qed

lemma extpi_denominators_closed:
  assumes "W = 2 ^ k"
  shows "fst (extpi_fill_numeric W H E hash FF1 A diag S cf row) =
     replicate W (sum_list (extpi_fill_tildes W H E hash FF1 A diag S cf row) + diag ! row)"
proof -
  let ?f = "fold (extpi_fill_numeric_lane W E hash A diag S cf row (diag ! row \<ge> 0)) [0..<W]
            ([], extpi_fill_pattern W H E hash FF1 A S cf row)"
  obtain tildes m where f: "?f = (tildes, m)" by (cases ?f)
  have t: "extpi_fill_tildes W H E hash FF1 A diag S cf row = tildes"
    by (simp add: extpi_fill_tildes_def f)
  have "length (fst ?f) = W" by (simp add: numeric_lanes_length)
  then have len: "length tildes = 2 ^ k" using f assms by simp
  have "fst (extpi_fill_numeric W H E hash FF1 A diag S cf row) =
      map (\<lambda>a. a + diag ! row) (shfl_xor_sum (W div 2) tildes)"
    unfolding extpi_fill_numeric_def Let_def f by simp
  also have "\<dots> = replicate W (sum_list tildes + diag ! row)"
    unfolding assms shfl_xor_sum_total [OF len] by simp
  finally show ?thesis by (simp add: t)
qed

text \<open>
  C8, as stated, fails. For the matrix \<open>dz_A\<close> (a negative diagonal in row 0), classified
  with \<open>eps = 1/4\<close> and coarsened, row 0 is Fine and its strongly connected neighbour,
  row 1, is Fine: the kernel reaches \<open>val_ik / sum_l\<close> with \<open>sum_l = 0\<close>. For the matrix
  \<open>dd_A\<close>, classified and coarsened in the same way, row 0 is Fine and the weak entry
  \<open>-1\<close> cancels the diagonal \<open>1\<close>: the final divisor is 0 in both lanes.
\<close>

theorem extpi_division_counterexample:
  "kernel_csr_rs_pmis_strong_influences 2 3 dz_A (1/4) (\<lambda>_. False) dz_ss =
     \<lparr>ss_omega = dz_omega, ss_S = dz_S\<rparr> \<and>
   pmis_loop 2 3 dz_A dz_omega dz_S start3 =
     Some \<lparr>pm_cf = dz_cf, pm_workspace = [False, True, True], pm_undecided = False\<rparr> \<and>
   dz_cf ! 0 = 2 \<and> dz_S ! 1 \<and> csr_col_ind dz_A ! 1 \<noteq> 0 \<and> dz_cf ! (csr_col_ind dz_A ! 1) = 2 \<and>
   fst (extpi_fill_sum_l 100 (\<lambda>k. k) dz_A dz_cf
          (extpi_fill_pattern 2 4 100 (\<lambda>k. k) False dz_A dz_S dz_cf 0) 0 (dz_diag ! 0 \<ge> 0)
          (csr_col_ind dz_A ! 1)) = 0 \<and>
   kernel_csr_rs_pmis_strong_influences 2 3 dd_A (1/4) (\<lambda>_. False) dd_ss =
     \<lparr>ss_omega = dd_omega, ss_S = dd_S\<rparr> \<and>
   pmis_loop 2 3 dd_A dd_omega dd_S start3 =
     Some \<lparr>pm_cf = dd_cf, pm_workspace = [True, True, False], pm_undecided = False\<rparr> \<and>
   dd_cf ! 0 = 2 \<and>
   fst (extpi_fill_numeric 2 4 100 (\<lambda>k. k) False dd_A dd_diag dd_S dd_cf 0) = [0, 0]"
proof -
  have a: "dz_cf ! 0 = 2" "dz_S ! 1" "csr_col_ind dz_A ! 1 \<noteq> 0" "dz_cf ! (csr_col_ind dz_A ! 1) = 2"
    "dd_cf ! 0 = 2"
    by (simp_all add: dz_cf_def dz_S_def dz_A_def dd_cf_def)
  have s: "fst (extpi_fill_sum_l 100 (\<lambda>k. k) dz_A dz_cf
          (extpi_fill_pattern 2 4 100 (\<lambda>k. k) False dz_A dz_S dz_cf 0) 0 (dz_diag ! 0 \<ge> 0)
          (csr_col_ind dz_A ! 1)) = 0"
    unfolding dz_sum_l by simp
  show ?thesis
    by (intro conjI dz_classified dz_coarsened a s dd_classified dd_coarsened dd_denominators)
qed

text \<open>
  C8, amended. The kernel divides without a guard. The divisor \<open>sum_l\<close> of \<open>val_ik\<close>
  is nonzero if and only if the row of the fine neighbour has an entry of nonzero value
  whose sign differs from that of the diagonal of the row \<open>i\<close> (in the kernel's test
  \<open>>= 0\<close>) and whose column is \<open>i\<close> or a Coarse column that the map of the row holds.
  For a wavefront of \<open>2 ^ k\<close> lanes, the final divisor is in every lane the diagonal of
  the row plus the sum over the lanes of \<open>sum_n + sum_k\<close>; it is nonzero if and only if
  that sum is not the negative of the diagonal.
\<close>

theorem extpi_fill_divisors:
  assumes "WFSIZE = 2 ^ k"
  shows "(fst (extpi_fill_sum_l EMPTY hash A cf m row pos_ii col_ik) \<noteq> 0 \<longleftrightarrow>
           (\<exists>l\<in>{csr_row_ptr A ! col_ik..<csr_row_ptr A ! (col_ik + 1)}.
              csr_val A ! l \<noteq> 0 \<and> pos_ii \<noteq> (csr_val A ! l \<ge> 0) \<and>
              (csr_col_ind A ! l = row \<or>
               (cf ! (csr_col_ind A ! l) = 1 \<and>
                unordered_map_contains EMPTY hash (csr_col_ind A ! l) m)))) \<and>
         fst (extpi_fill_numeric WFSIZE HASHSIZE EMPTY hash FF A diag S cf row) =
           replicate WFSIZE
             (sum_list (extpi_fill_tildes WFSIZE HASHSIZE EMPTY hash FF A diag S cf row) + diag ! row) \<and>
         (\<forall>lid<WFSIZE.
            fst (extpi_fill_numeric WFSIZE HASHSIZE EMPTY hash FF A diag S cf row) ! lid \<noteq> 0 \<longleftrightarrow>
            sum_list (extpi_fill_tildes WFSIZE HASHSIZE EMPTY hash FF A diag S cf row) \<noteq> - diag ! row)"
proof -
  note d = extpi_denominators_closed [OF assms, of HASHSIZE EMPTY hash FF A diag S cf row]
  have 1: "fst (extpi_fill_sum_l EMPTY hash A cf m row pos_ii col_ik) \<noteq> 0 \<longleftrightarrow>
           (\<exists>l\<in>{csr_row_ptr A ! col_ik..<csr_row_ptr A ! (col_ik + 1)}.
              csr_val A ! l \<noteq> 0 \<and> pos_ii \<noteq> (csr_val A ! l \<ge> 0) \<and>
              (csr_col_ind A ! l = row \<or>
               (cf ! (csr_col_ind A ! l) = 1 \<and>
                unordered_map_contains EMPTY hash (csr_col_ind A ! l) m)))"
    unfolding extpi_sum_l_nonzero sum_l_term_def ..
  have 3: "\<forall>lid<WFSIZE.
            fst (extpi_fill_numeric WFSIZE HASHSIZE EMPTY hash FF A diag S cf row) ! lid \<noteq> 0 \<longleftrightarrow>
            sum_list (extpi_fill_tildes WFSIZE HASHSIZE EMPTY hash FF A diag S cf row) \<noteq> - diag ! row"
    unfolding d by (auto simp: add_eq_0_iff2)
  show ?thesis using 1 d 3 by (intro conjI)
qed

theorem extpi_fill_divisors_witness:
  "(2::nat) = 2 ^ 1 \<and>
   fst (extpi_fill_numeric 2 4 100 (\<lambda>k. k) False ex_A [2, 1, 2, 2] ex_S (pm_cf ex_final) 2) =
     replicate 2
       (sum_list (extpi_fill_tildes 2 4 100 (\<lambda>k. k) False ex_A [2, 1, 2, 2] ex_S (pm_cf ex_final) 2)
        + [2, 1, 2, 2] ! 2) \<and>
   (0::nat) < 2 \<and>
   sum_list (extpi_fill_tildes 2 4 100 (\<lambda>k. k) False ex_A [2, 1, 2, 2] ex_S (pm_cf ex_final) 2)
     \<noteq> - [2, 1, 2, 2] ! 2 \<and>
   fst (extpi_fill_numeric 2 4 100 (\<lambda>k. k) False ex_A [2, 1, 2, 2] ex_S (pm_cf ex_final) 2) ! 0 \<noteq> 0"
proof -
  have h: "(2::nat) = 2 ^ 1" by simp
  have l: "(0::nat) < 2" by simp
  note t = extpi_fill_divisors [OF h, where EMPTY = 100 and hash = "\<lambda>k. k" and A = ex_A
      and cf = "pm_cf ex_final" and HASHSIZE = 4 and FF = False and diag = "[2, 1, 2, 2]"
      and S = ex_S and row = 2]
  note t2 = t [THEN conjunct2, THEN conjunct1]
  note t3 = t [THEN conjunct2, THEN conjunct2, rule_format, OF l]
  have n: "sum_list (extpi_fill_tildes 2 4 100 (\<lambda>k. k) False ex_A [2, 1, 2, 2] ex_S (pm_cf ex_final) 2)
     \<noteq> - [2, 1, 2, 2] ! 2"
    by code_simp
  show ?thesis using t3 n by (intro conjI h t2 l) simp_all
qed

section \<open>Column order of the rows of P\<close>

lemma probe_range:
  assumes "probe E k n h keys = Some s" "h < length keys"
  shows "s < length keys \<and> (keys ! s = k \<or> keys ! s = E)"
  using assms
proof (induction n arbitrary: h)
  case 0
  then show ?case by simp
next
  case (Suc n)
  have "(h + 1) mod length keys < length keys"
    using Suc.prems(2) by (intro mod_less_divisor) auto
  then show ?case using Suc by (auto split: if_splits)
qed

lemma probe_upd_other:
  assumes "probe E k n h keys = Some s" "keys ! s = k" "k \<noteq> E" "keys ! t = E" "h < length keys"
  shows "probe E k n h (keys[t := v]) = Some s"
  using assms(1,5)
proof (induction n arbitrary: h)
  case 0
  then show ?case by simp
next
  case (Suc n)
  have nx: "(h + 1) mod length keys < length keys"
    using Suc.prems(2) by (intro mod_less_divisor) auto
  show ?case
  proof (cases "keys ! h = k")
    case True
    then have "h \<noteq> t" using assms(3,4) by auto
    then show ?thesis using True Suc.prems by simp
  next
    case False
    show ?thesis
    proof (cases "keys ! h = E")
      case True
      then have "s = h" using Suc.prems(1) False by simp
      then show ?thesis using True assms(2,3) by simp
    next
      case e: False
      then have ht: "h \<noteq> t" using assms(4) by auto
      have "probe E k n ((h + 1) mod length keys) keys = Some s"
        using Suc.prems(1) False e by simp
      from Suc.IH [OF this nx] show ?thesis using False e ht Suc.prems(2) by simp
    qed
  qed
qed

lemma probe_upd_self:
  assumes "probe E k n h keys = Some s" "keys ! s = E" "k \<noteq> E" "h < length keys"
  shows "probe E k n h (keys[s := k]) = Some s"
  using assms(1,4)
proof (induction n arbitrary: h)
  case 0
  then show ?case by simp
next
  case (Suc n)
  have nx: "(h + 1) mod length keys < length keys"
    using Suc.prems(2) by (intro mod_less_divisor) auto
  show ?case
  proof (cases "keys ! h = k")
    case True
    then have "s = h" using Suc.prems(1) by simp
    then show ?thesis using True assms(2,3) by simp
  next
    case False
    show ?thesis
    proof (cases "keys ! h = E")
      case True
      then have "s = h" using Suc.prems(1) False by simp
      then show ?thesis using Suc.prems(2) by simp
    next
      case e: False
      then have hs: "h \<noteq> s" using assms(2) by auto
      have "probe E k n ((h + 1) mod length keys) keys = Some s"
        using Suc.prems(1) False e by simp
      from Suc.IH [OF this nx] show ?thesis using False e hs Suc.prems(2) by simp
    qed
  qed
qed

lemma find_slot_range:
  assumes "find_slot E hash k keys = Some s"
  shows "s < length keys \<and> (keys ! s = k \<or> keys ! s = E)"
proof -
  have "length keys \<noteq> 0" using assms by (auto simp: find_slot_def)
  then have "hash k mod length keys < length keys" by simp
  then show ?thesis using assms probe_range unfolding find_slot_def by blast
qed

lemma table_inv_nth:
  "table_inv E hash keys \<Longrightarrow> s < length keys \<Longrightarrow> keys ! s \<noteq> E \<Longrightarrow>
     find_slot E hash (keys ! s) keys = Some s"
  by (auto simp: table_inv_def list_all_iff)

lemma table_inv_distinct:
  assumes "table_inv E hash keys" "s < length keys" "t < length keys"
    and "keys ! s = keys ! t" "keys ! s \<noteq> E"
  shows "s = t"
proof -
  have a: "find_slot E hash (keys ! t) keys = Some s"
    using table_inv_nth [OF assms(1,2,5)] unfolding assms(4) .
  have "keys ! t \<noteq> E" using assms(5) unfolding assms(4) .
  then have b: "find_slot E hash (keys ! t) keys = Some t"
    by (rule table_inv_nth [OF assms(1,3)])
  show ?thesis using a unfolding b by (rule option.inject [THEN iffD1, symmetric])
qed

lemma table_inv_insert:
  assumes "table_inv E hash keys" "find_slot E hash k keys = Some h" "keys ! h \<noteq> k" "k \<noteq> E"
  shows "table_inv E hash (keys[h := k])"
proof -
  note r = find_slot_range [OF assms(2)]
  have h: "h < length keys" and e: "keys ! h = E" using r assms(3) by auto
  have h0: "hash c mod length keys < length keys" for c
    using h by (intro mod_less_divisor) auto
  have "keys[h := k] ! s = E \<or> find_slot E hash (keys[h := k] ! s) (keys[h := k]) = Some s"
    if s: "s < length keys" for s
  proof (cases "s = h")
    case True
    have "probe E k (length keys) (hash k mod length keys) (keys[h := k]) = Some h"
      by (rule probe_upd_self) (use assms(2,4) e h0 in \<open>auto simp: find_slot_def\<close>)
    then show ?thesis using True h by (simp add: find_slot_def)
  next
    case False
    show ?thesis
    proof (cases "keys ! s = E")
      case True
      then show ?thesis using False by simp
    next
      case ne: False
      have "probe E (keys ! s) (length keys) (hash (keys ! s) mod length keys) keys = Some s"
        using table_inv_nth [OF assms(1) s ne] by (simp add: find_slot_def)
      then have "probe E (keys ! s) (length keys) (hash (keys ! s) mod length keys) (keys[h := k]) = Some s"
        by (rule probe_upd_other) (use ne e h0 in auto)
      then show ?thesis using False by (simp add: find_slot_def)
    qed
  qed
  then show ?thesis by (simp add: table_inv_def list_all_iff)
qed

lemma map_insert_ok:
  assumes "map_ok E hash H n cf m" "k < n" "cf ! k = 1"
  shows "map_ok E hash H n cf (snd (unordered_map_insert E hash k m))"
proof (cases "k = E")
  case True
  then show ?thesis using assms(1) by (simp add: unordered_map_insert_def)
next
  case ne: False
  show ?thesis
  proof (cases "find_slot E hash k (hm_keys m)")
    case None
    then show ?thesis using assms(1) ne by (simp add: unordered_map_insert_def)
  next
    case (Some h)
    show ?thesis
    proof (cases "hm_keys m ! h = k")
      case True
      then show ?thesis using assms(1) ne Some by (simp add: unordered_map_insert_def)
    next
      case False
      have res: "hm_keys (snd (unordered_map_insert E hash k m)) = (hm_keys m)[h := k]"
        using ne Some False by (simp add: unordered_map_insert_def)
      have t: "table_inv E hash ((hm_keys m)[h := k])"
        by (rule table_inv_insert) (use assms(1) Some False ne in \<open>auto simp: map_ok_def\<close>)
      have "list_all (\<lambda>k. k = E \<or> (k < n \<and> cf ! k = 1)) ((hm_keys m)[h := k])"
        using assms unfolding map_ok_def list_all_iff
        by (auto dest!: set_update_subset_insert [THEN subsetD])
      then show ?thesis using t assms(1) unfolding map_ok_def res by simp
    qed
  qed
qed

lemma empty_map_ok: "map_ok E hash H n cf (empty_map E H)"
proof -
  have "table_inv E hash (replicate H E)" by (simp add: table_inv_def list_all_iff)
  then show ?thesis by (simp add: map_ok_def empty_map_def list_all_iff)
qed

lemma insert_inner_ok:
  assumes "csr_wf A" "\<forall>l\<in>set ls. l < length (csr_col_ind A)" "map_ok E hash H (nrow A) cf m"
  shows "map_ok E hash H (nrow A) cf (extpi_fill_insert_inner E hash FF1 A S cf col_ik ls m)"
  using assms(2,3)
proof (induction ls arbitrary: m)
  case Nil
  then show ?case by simp
next
  case (Cons l ls)
  have c: "csr_col_ind A ! l < nrow A" using csr_wf_col [OF assms(1)] Cons.prems(1) by simp
  have ins: "map_ok E hash H (nrow A) cf (snd (unordered_map_insert E hash (csr_col_ind A ! l) m))"
    if "cf ! (csr_col_ind A ! l) = 1"
    by (rule map_insert_ok [OF Cons.prems(2) c that])
  have rest: "\<forall>l\<in>set ls. l < length (csr_col_ind A)" using Cons.prems(1) by simp
  show ?case
    using Cons.IH [OF rest Cons.prems(2)] Cons.IH [OF rest ins] ins
    by (cases FF1) (simp_all add: Let_def)
qed

lemma insert_step_ok:
  assumes "csr_wf A" "k < length (csr_col_ind A)" "map_ok E hash H (nrow A) cf m"
  shows "map_ok E hash H (nrow A) cf (extpi_fill_insert_step E hash FF1 A S cf row k m)"
proof -
  have c: "csr_col_ind A ! k < nrow A" using csr_wf_col [OF assms(1,2)] .
  have inner: "\<forall>l\<in>set [csr_row_ptr A ! (csr_col_ind A ! k)..<csr_row_ptr A ! (csr_col_ind A ! k + 1)].
      l < length (csr_col_ind A)"
    using csr_wf_row(2) [OF assms(1) c] by auto
  show ?thesis
    unfolding extpi_fill_insert_step_def Let_def
    using assms(3) map_insert_ok [OF assms(3) c] insert_inner_ok [OF assms(1) inner assms(3)]
    by simp
qed

lemma pattern_ok:
  assumes "csr_wf A" "row < nrow A"
  shows "map_ok E hash H (nrow A) cf (extpi_fill_pattern W H E hash FF1 A S cf row)"
  unfolding extpi_fill_pattern_def
proof (rule fold_inv [where P = "map_ok E hash H (nrow A) cf"])
  show "map_ok E hash H (nrow A) cf (empty_map E H)" by (rule empty_map_ok)
next
  fix y t
  assume t: "map_ok E hash H (nrow A) cf t"
  show "map_ok E hash H (nrow A) cf
      (fold (extpi_fill_insert_step E hash FF1 A S cf row)
        (lane_indices W y (csr_row_ptr A ! row) (csr_row_ptr A ! (row + 1))) t)"
  proof (rule fold_inv [where P = "map_ok E hash H (nrow A) cf"])
    show "map_ok E hash H (nrow A) cf t" by (rule t)
  next
    fix k u
    assume k: "k \<in> set (lane_indices W y (csr_row_ptr A ! row) (csr_row_ptr A ! (row + 1)))"
      and u: "map_ok E hash H (nrow A) cf u"
    have "k < length (csr_col_ind A)"
      using lane_indices_bounds [OF k] csr_wf_row(2) [OF assms] by simp
    then show "map_ok E hash H (nrow A) cf (extpi_fill_insert_step E hash FF1 A S cf row k u)"
      by (rule insert_step_ok [OF assms(1) _ u])
  qed
qed

lemma map_add_keys: "hm_keys (snd (unordered_map_add E hash k v m)) = hm_keys m"
  by (simp add: unordered_map_add_def split: option.splits)

lemma map_add_keysD: "unordered_map_add E hash k v m = (b, m') \<Longrightarrow> hm_keys m' = hm_keys m"
  using map_add_keys [of E hash k v m] by simp

lemma distribute_keys:
  "hm_keys (fold (extpi_fill_distribute_step E hash A cf pos_kk sum_l) ls m) = hm_keys m"
  by (rule fold_inv [where P = "\<lambda>t. hm_keys t = hm_keys m"])
    (simp_all add: extpi_fill_distribute_step_def Let_def map_add_keys)

lemma numeric_step_keys:
  "hm_keys (snd (snd (extpi_fill_numeric_step E hash A diag S cf row pos_ii k st))) =
     hm_keys (snd (snd st))"
proof -
  obtain sk sn m where st: "st = (sk, sn, m)" by (cases st)
  show ?thesis
    unfolding st extpi_fill_numeric_step_def Let_def
    by (auto simp: distribute_keys split: prod.splits if_splits dest!: map_add_keysD)
qed

lemma write_idx:
  "fold (\<lambda>cnt idx. if col > keys ! cnt then idx + 1 else idx) xs i0 =
     i0 + length (filter (\<lambda>cnt. keys ! cnt < col) xs)"
  by (induction xs arbitrary: i0) simp_all

lemma table_rank_card: "table_rank keys col = card {c. c < length keys \<and> keys ! c < col}"
  unfolding table_rank_def length_filter_upt_card by (rule arg_cong [where f = card]) auto

lemma table_count_card: "table_count E keys = card {c. c < length keys \<and> keys ! c \<noteq> E}"
  unfolding table_count_def by (rule length_filter_conv_card)

lemma table_rank_less:
  assumes "keys ! i < col" "i < length keys"
  shows "table_rank keys (keys ! i) < table_rank keys col"
  unfolding table_rank_card
proof (rule psubset_card_mono)
  show "finite {c. c < length keys \<and> keys ! c < col}" by simp
  show "{c. c < length keys \<and> keys ! c < keys ! i} \<subset> {c. c < length keys \<and> keys ! c < col}"
    using assms by auto
qed

lemma table_rank_eq:
  assumes "table_rank keys (keys ! i) = table_rank keys (keys ! j)"
    and "i < length keys" "j < length keys"
  shows "keys ! i = keys ! j"
proof (rule ccontr)
  assume "keys ! i \<noteq> keys ! j"
  then consider "keys ! i < keys ! j" | "keys ! j < keys ! i" by linarith
  then show False
    using table_rank_less [of keys i "keys ! j"] table_rank_less [of keys j "keys ! i"] assms
    by cases auto
qed

lemma table_rank_count:
  assumes "i < length keys" "keys ! i < E"
  shows "table_rank keys (keys ! i) < table_count E keys"
  unfolding table_rank_card table_count_card
proof (rule psubset_card_mono)
  show "finite {c. c < length keys \<and> keys ! c \<noteq> E}" by simp
  show "{c. c < length keys \<and> keys ! c < keys ! i} \<subset> {c. c < length keys \<and> keys ! c \<noteq> E}"
    using assms by auto
qed

lemma table_rank_onto:
  assumes "table_inv E hash keys" "list_all (\<lambda>k. k \<le> E) keys" "r < table_count E keys"
  shows "\<exists>i<length keys. keys ! i \<noteq> E \<and> table_rank keys (keys ! i) = r"
proof -
  let ?O = "{c. c < length keys \<and> keys ! c \<noteq> E}"
  let ?f = "\<lambda>c. table_rank keys (keys ! c)"
  have lt: "keys ! c < E" if "c \<in> ?O" for c
  proof -
    have "keys ! c \<le> E" using assms(2) that by (simp add: list_all_length)
    then show ?thesis using that by simp
  qed
  have inj: "inj_on ?f ?O"
  proof (rule inj_onI)
    fix x y assume x: "x \<in> ?O" and y: "y \<in> ?O" and e: "?f x = ?f y"
    have "keys ! x = keys ! y" using table_rank_eq [OF e] x y by simp
    then show "x = y" using table_inv_distinct [OF assms(1)] x y by blast
  qed
  have sub: "?f ` ?O \<subseteq> {0..<card ?O}"
    using table_rank_count lt unfolding table_count_card by fastforce
  have "card (?f ` ?O) = card {0..<card ?O}" using card_image [OF inj] by simp
  then have "?f ` ?O = {0..<card ?O}" using sub by (intro card_subset_eq) simp_all
  then have "r \<in> ?f ` ?O" using assms(3) by (simp add: table_count_card)
  then show ?thesis by auto
qed

lemma write_step_length:
  "length (prolong_csr_col_ind (extpi_fill_write_step E H m f2c aj a y P)) =
     length (prolong_csr_col_ind P)"
  by (simp add: extpi_fill_write_step_def Let_def)

lemma write_step_col:
  assumes "length (hm_keys m) = H"
  shows "prolong_csr_col_ind (extpi_fill_write_step E H m f2c aj a y P) =
     (if hm_keys m ! y = E then prolong_csr_col_ind P
      else (prolong_csr_col_ind P)[aj + table_rank (hm_keys m) (hm_keys m ! y) := f2c ! (hm_keys m ! y)])"
  using assms [symmetric]
  by (simp add: extpi_fill_write_step_def Let_def write_idx table_rank_def)

lemma write_step_keep:
  assumes "length (hm_keys m) = H" "y < H" "i < H" "p < length (prolong_csr_col_ind P)"
    and "p = aj + table_rank (hm_keys m) (hm_keys m ! i)"
    and "prolong_csr_col_ind P ! p = f2c ! (hm_keys m ! i)"
  shows "prolong_csr_col_ind (extpi_fill_write_step E H m f2c aj a y P) ! p = f2c ! (hm_keys m ! i)"
proof (cases "hm_keys m ! y = E")
  case True
  then show ?thesis using assms(6) by (simp add: write_step_col [OF assms(1)])
next
  case False
  show ?thesis
  proof (cases "table_rank (hm_keys m) (hm_keys m ! y) = table_rank (hm_keys m) (hm_keys m ! i)")
    case True
    have "hm_keys m ! y = hm_keys m ! i"
      by (rule table_rank_eq [OF True]) (use assms in auto)
    then show ?thesis using False assms(4,5) by (simp add: write_step_col [OF assms(1)])
  next
    case ne: False
    then show ?thesis using False assms(4,5,6) by (simp add: write_step_col [OF assms(1)] nth_upd)
  qed
qed

lemma write_step_hit:
  assumes "length (hm_keys m) = H" "hm_keys m ! i \<noteq> E" "p < length (prolong_csr_col_ind P)"
    and "p = aj + table_rank (hm_keys m) (hm_keys m ! i)"
  shows "prolong_csr_col_ind (extpi_fill_write_step E H m f2c aj a i P) ! p = f2c ! (hm_keys m ! i)"
  using assms by (simp add: write_step_col [OF assms(1)])

lemma write_lane_col:
  assumes "length (hm_keys m) = H" "i < H"
    and "p = aj + table_rank (hm_keys m) (hm_keys m ! i)"
  shows "length (prolong_csr_col_ind (fold (extpi_fill_write_step E H m f2c aj a) (lane_indices W lid 0 H) P)) =
           length (prolong_csr_col_ind P)"
    and "p < length (prolong_csr_col_ind P) \<Longrightarrow> prolong_csr_col_ind P ! p = f2c ! (hm_keys m ! i) \<Longrightarrow>
         prolong_csr_col_ind (fold (extpi_fill_write_step E H m f2c aj a) (lane_indices W lid 0 H) P) ! p =
           f2c ! (hm_keys m ! i)"
    and "p < length (prolong_csr_col_ind P) \<Longrightarrow> hm_keys m ! i \<noteq> E \<Longrightarrow>
         i \<in> set (lane_indices W lid 0 H) \<Longrightarrow>
         prolong_csr_col_ind (fold (extpi_fill_write_step E H m f2c aj a) (lane_indices W lid 0 H) P) ! p =
           f2c ! (hm_keys m ! i)"
proof -
  let ?L = "\<lambda>s. length (prolong_csr_col_ind s) = length (prolong_csr_col_ind P)"
  let ?Q = "\<lambda>s. prolong_csr_col_ind s ! p = f2c ! (hm_keys m ! i)"
  let ?f = "extpi_fill_write_step E H m f2c aj a"
  show "?L (fold ?f (lane_indices W lid 0 H) P)"
    by (rule fold_inv [where P = ?L]) (simp_all add: write_step_length)
  have keep: "?Q (?f y s)" if "y \<in> set (lane_indices W lid 0 H)" "?Q s" "?L s"
    "p < length (prolong_csr_col_ind P)" for y s
    by (rule write_step_keep [OF assms(1) _ assms(2) _ assms(3)])
      (use that lane_indices_bounds [OF that(1)] in auto)
  show "?Q (fold ?f (lane_indices W lid 0 H) P)"
    if "p < length (prolong_csr_col_ind P)" "?Q P"
  proof -
    have "?L (fold ?f (lane_indices W lid 0 H) P) \<and> ?Q (fold ?f (lane_indices W lid 0 H) P)"
      by (rule fold_inv [where P = "\<lambda>s. ?L s \<and> ?Q s"])
        (use that keep in \<open>auto simp: write_step_length\<close>)
    then show ?thesis ..
  qed
  show "?Q (fold ?f (lane_indices W lid 0 H) P)"
    if "p < length (prolong_csr_col_ind P)" "hm_keys m ! i \<noteq> E" "i \<in> set (lane_indices W lid 0 H)"
  proof (rule fold_establish [where P = ?L and Q = ?Q and x = i])
    show "i \<in> set (lane_indices W lid 0 H)" by (rule that(3))
    show "?L P" by simp
    show "\<And>y s. y \<in> set (lane_indices W lid 0 H) \<Longrightarrow> ?L s \<Longrightarrow> ?L (?f y s)"
      by (simp add: write_step_length)
    show "\<And>y s. y \<in> set (lane_indices W lid 0 H) \<Longrightarrow> ?Q s \<Longrightarrow> ?L s \<Longrightarrow> ?Q (?f y s)"
      using keep that(1) by blast
    show "\<And>s. ?L s \<Longrightarrow> ?Q (?f i s)"
      by (rule write_step_hit [OF assms(1) that(2) _ assms(3)]) (use that(1) in simp)
  qed
qed

lemma write_loop_col:
  fixes a :: "nat \<Rightarrow> real"
  assumes "0 < W" "length (hm_keys m) = H" "i < H" "hm_keys m ! i \<noteq> E"
    and "p = aj + table_rank (hm_keys m) (hm_keys m ! i)"
    and "p < length (prolong_csr_col_ind P)"
  shows "prolong_csr_col_ind
           (fold (\<lambda>lid. fold (extpi_fill_write_step E H m f2c aj (a lid)) (lane_indices W lid 0 H))
              [0..<W] P) ! p = f2c ! (hm_keys m ! i)"
proof -
  let ?L = "\<lambda>s. length (prolong_csr_col_ind s) = length (prolong_csr_col_ind P)"
  let ?Q = "\<lambda>s. prolong_csr_col_ind s ! p = f2c ! (hm_keys m ! i)"
  let ?F = "\<lambda>lid. fold (extpi_fill_write_step E H m f2c aj (a lid)) (lane_indices W lid 0 H)"
  note wl = write_lane_col [OF assms(2,3,5)]
  have cover: "i mod W < W \<and> i \<in> set (lane_indices W (i mod W) 0 H)"
    using lane_indices_cover [OF assms(1), of 0 i H] assms(3) by simp
  show ?thesis
  proof (rule fold_establish [where P = ?L and Q = ?Q and x = "i mod W"])
    show "i mod W \<in> set [0..<W]" using cover by simp
    show "?L P" by simp
    show "\<And>y s. y \<in> set [0..<W] \<Longrightarrow> ?L s \<Longrightarrow> ?L (?F y s)"
      using wl(1) by simp
    show "\<And>y s. y \<in> set [0..<W] \<Longrightarrow> ?Q s \<Longrightarrow> ?L s \<Longrightarrow> ?Q (?F y s)"
      using wl(2) assms(6) by simp
    show "\<And>s. ?L s \<Longrightarrow> ?Q (?F (i mod W) s)"
      using wl(3) assms(4,6) cover by simp
  qed
qed

lemma numeric_fold_keys:
  "hm_keys (snd (snd (fold (extpi_fill_numeric_step E hash A diag S cf row pos_ii) ks st))) =
     hm_keys (snd (snd st))"
  by (rule fold_inv [where P = "\<lambda>t. hm_keys (snd (snd t)) = hm_keys (snd (snd st))"])
    (simp_all add: numeric_step_keys)

lemma numeric_lane_keys:
  "hm_keys (snd (extpi_fill_numeric_lane W E hash A diag S cf row pos_ii lid st)) = hm_keys (snd st)"
proof -
  obtain tildes m where st: "st = (tildes, m)" by (cases st)
  let ?f = "fold (extpi_fill_numeric_step E hash A diag S cf row pos_ii)
      (lane_indices W lid (csr_row_ptr A ! row) (csr_row_ptr A ! (row + 1))) (0, 0, m)"
  obtain sk sn m' where f: "?f = (sk, sn, m')" by (cases ?f)
  have "hm_keys (snd (snd ?f)) = hm_keys m"
    using numeric_fold_keys [where st = "(0, 0, m)"] by simp
  then have "hm_keys m' = hm_keys m" unfolding f by simp
  then show ?thesis unfolding st extpi_fill_numeric_lane_def prod.case f by simp
qed

lemma numeric_keys:
  "hm_keys (snd (extpi_fill_numeric W H E hash FF1 A diag S cf row)) =
     hm_keys (extpi_fill_pattern W H E hash FF1 A S cf row)"
proof -
  let ?p = "extpi_fill_pattern W H E hash FF1 A S cf row"
  let ?f = "fold (extpi_fill_numeric_lane W E hash A diag S cf row (diag ! row \<ge> 0)) [0..<W] ([], ?p)"
  have k: "hm_keys (snd ?f) = hm_keys ?p"
    by (rule fold_inv [where P = "\<lambda>t. hm_keys (snd t) = hm_keys ?p"])
      (simp_all add: numeric_lane_keys)
  obtain tildes m where f: "?f = (tildes, m)" by (cases ?f)
  show ?thesis unfolding extpi_fill_numeric_def Let_def f using k f by simp
qed

lemma write_loop_length:
  fixes a :: "nat \<Rightarrow> real"
  shows "length (prolong_csr_col_ind
           (fold (\<lambda>lid. fold (extpi_fill_write_step E H m f2c aj (a lid)) (lane_indices W lid 0 H))
              ls P)) = length (prolong_csr_col_ind P)"
proof (rule fold_inv [where P = "\<lambda>t. length (prolong_csr_col_ind t) = length (prolong_csr_col_ind P)"])
  show "length (prolong_csr_col_ind P) = length (prolong_csr_col_ind P)" ..
next
  fix y and t :: prolong
  assume t: "length (prolong_csr_col_ind t) = length (prolong_csr_col_ind P)"
  have "length (prolong_csr_col_ind (fold (extpi_fill_write_step E H m f2c aj (a y)) (lane_indices W y 0 H) t)) =
      length (prolong_csr_col_ind t)"
    by (rule fold_inv [where P = "\<lambda>u. length (prolong_csr_col_ind u) = length (prolong_csr_col_ind t)"])
      (simp_all add: write_step_length)
  then show "length (prolong_csr_col_ind (fold (extpi_fill_write_step E H m f2c aj (a y)) (lane_indices W y 0 H) t)) =
      length (prolong_csr_col_ind P)"
    using t by simp
qed

lemma row_slice_map:
  assumes "b + n \<le> length xs"
  shows "row_slice b (b + n) xs = map (\<lambda>i. xs ! (b + i)) [0..<n]"
  unfolding row_slice_def
proof (rule nth_equalityI)
  show "length (take (b + n - b) (drop b xs)) = length (map (\<lambda>i. xs ! (b + i)) [0..<n])"
    using assms by simp
next
  fix i
  assume "i < length (take (b + n - b) (drop b xs))"
  then have "i < n" by simp
  then show "take (b + n - b) (drop b xs) ! i = map (\<lambda>i. xs ! (b + i)) [0..<n] ! i"
    using assms by simp
qed

lemma extpi_row_sorted:
  fixes f2c csr_row_ptr_P :: "nat list" and P :: prolong and diag :: "real list"
  assumes "0 < W" "csr_wf A" "nrow A \<le> E" "row < nrow A" "cf ! row \<noteq> 1"
    and mono: "\<forall>c<nrow A. \<forall>d<nrow A. c < d \<and> cf ! c = 1 \<and> cf ! d = 1 \<longrightarrow> f2c ! c < f2c ! d"
    and room: "csr_row_ptr_P ! row +
        table_count E (hm_keys (extpi_fill_pattern W H E hash FF1 A S cf row)) \<le>
        length (prolong_csr_col_ind P)"
  shows "sorted_wrt (<)
     (row_slice (csr_row_ptr_P ! row)
        (csr_row_ptr_P ! row + table_count E (hm_keys (extpi_fill_pattern W H E hash FF1 A S cf row)))
        (prolong_csr_col_ind
           (extpi_fill_wavefront W H E hash FF1 A diag csr_row_ptr_P S cf f2c row P)))"
proof -
  define keys where "keys = hm_keys (extpi_fill_pattern W H E hash FF1 A S cf row)"
  define aj where "aj = csr_row_ptr_P ! row"
  define n where "n = table_count E keys"
  obtain den m where nm: "extpi_fill_numeric W H E hash FF1 A diag S cf row = (den, m)"
    by (cases "extpi_fill_numeric W H E hash FF1 A diag S cf row")
  have mk: "hm_keys m = keys"
    using numeric_keys [of W H E hash FF1 A diag S cf row] unfolding nm keys_def by simp
  define P' where "P' = fold (\<lambda>lid. fold (extpi_fill_write_step E H m f2c aj (- 1 / (den ! lid)))
      (lane_indices W lid 0 H)) [0..<W] P"
  have wf: "extpi_fill_wavefront W H E hash FF1 A diag csr_row_ptr_P S cf f2c row P = P'"
    using assms(4,5) by (simp add: extpi_fill_wavefront_def nm Let_def P'_def aj_def)
  have ok: "map_ok E hash H (nrow A) cf (extpi_fill_pattern W H E hash FF1 A S cf row)"
    by (rule pattern_ok [OF assms(2,4)])
  have len: "length keys = H" and inv: "table_inv E hash keys"
    and cols: "list_all (\<lambda>k. k = E \<or> (k < nrow A \<and> cf ! k = 1)) keys"
    using ok by (simp_all add: map_ok_def keys_def)
  have le: "list_all (\<lambda>k. k \<le> E) keys" using cols assms(3) by (auto simp: list_all_iff)
  have lenP: "length (prolong_csr_col_ind P') = length (prolong_csr_col_ind P)"
    unfolding P'_def by (rule write_loop_length)
  have room': "aj + n \<le> length (prolong_csr_col_ind P)"
    using room unfolding aj_def n_def keys_def .
  have at: "\<exists>i<H. keys ! i \<noteq> E \<and> table_rank keys (keys ! i) = r \<and>
      prolong_csr_col_ind P' ! (aj + r) = f2c ! (keys ! i)" if r: "r < n" for r
  proof -
    have "r < table_count E keys" using r unfolding n_def .
    from table_rank_onto [OF inv le this]
    obtain i where i: "i < length keys" "keys ! i \<noteq> E" "table_rank keys (keys ! i) = r"
      by blast
    have "prolong_csr_col_ind P' ! (aj + r) = f2c ! (hm_keys m ! i)"
      unfolding P'_def
      by (rule write_loop_col [OF assms(1)]) (use i len mk room' r in auto)
    then show ?thesis using i len mk by auto
  qed
  have slice: "row_slice aj (aj + n) (prolong_csr_col_ind P') =
      map (\<lambda>r. prolong_csr_col_ind P' ! (aj + r)) [0..<n]"
    by (rule row_slice_map) (use room' lenP in simp)
  have less: "prolong_csr_col_ind P' ! (aj + r1) < prolong_csr_col_ind P' ! (aj + r2)"
    if rr: "r1 < r2" "r2 < n" for r1 r2
  proof -
    have r1: "r1 < n" using rr by simp
    obtain i1 where i1: "i1 < H" "keys ! i1 \<noteq> E" "table_rank keys (keys ! i1) = r1"
      "prolong_csr_col_ind P' ! (aj + r1) = f2c ! (keys ! i1)"
      using at [OF r1] by auto
    obtain i2 where i2: "i2 < H" "keys ! i2 \<noteq> E" "table_rank keys (keys ! i2) = r2"
      "prolong_csr_col_ind P' ! (aj + r2) = f2c ! (keys ! i2)"
      using at [OF rr(2)] by auto
    have lt: "keys ! i1 < keys ! i2"
    proof (rule ccontr)
      assume "\<not> keys ! i1 < keys ! i2"
      then consider "keys ! i2 = keys ! i1" | "keys ! i2 < keys ! i1" by linarith
      then show False
      proof cases
        case 1
        then show False using i1(3) i2(3) rr(1) by simp
      next
        case 2
        have "table_rank keys (keys ! i2) < table_rank keys (keys ! i1)"
          by (rule table_rank_less [OF 2]) (use i2 len in simp)
        then show False using i1(3) i2(3) rr(1) by simp
      qed
    qed
    have c1: "keys ! i1 < nrow A \<and> cf ! (keys ! i1) = 1"
      using cols i1 len by (auto simp: list_all_length)
    have c2: "keys ! i2 < nrow A \<and> cf ! (keys ! i2) = 1"
      using cols i2 len by (auto simp: list_all_length)
    show ?thesis unfolding i1(4) i2(4) using mono lt c1 c2 by blast
  qed
  have "sorted_wrt (<) (row_slice aj (aj + n) (prolong_csr_col_ind P'))"
    unfolding slice by (simp add: sorted_wrt_iff_nth_less less)
  then show ?thesis unfolding wf aj_def n_def keys_def .
qed

lemma direct_row_cols:
  fixes P :: prolong and A :: csr and S :: "bool list" and cf :: "int list"
    and Amin Amax :: "real list" and row :: nat and rp f2c :: "nat list"
    and to_I :: "nat \<Rightarrow> nat"
  assumes "row < nrow A" "cf ! row \<noteq> 1"
  defines "kept \<equiv> filter (direct_keeps A S cf (Amin ! row) (Amax ! row))
                     [csr_row_ptr A ! row..<csr_row_ptr A ! (row + 1)]"
  defines "p \<equiv> to_I (rp ! row)"
  assumes wrap: "\<forall>i. 0 < i \<and> i \<le> length kept \<longrightarrow> to_I (p + i) = p + i"
    and room: "p + length kept \<le> length (prolong_csr_col_ind P)"
  shows "row_slice p (p + length kept)
           (prolong_csr_col_ind (direct_interp_fill_thread to_I A rp S cf Amin Amax f2c row P)) =
         map (\<lambda>j. f2c ! (csr_col_ind A ! j)) kept"
proof -
  let ?res = "direct_interp_fill_row to_I A rp S cf Amin Amax f2c row P"
  note c = direct_fill_row_closed [where A = A and S = S and cf = cf and Amin = Amin
      and Amax = Amax and row = row and rp = rp and to_I = to_I and ?f2c = f2c and P = P,
      folded kept_def p_def, OF wrap]
  have thr: "direct_interp_fill_thread to_I A rp S cf Amin Amax f2c row P = snd ?res"
    using assms(1,2) by (simp add: direct_interp_fill_thread_def Let_def)
  have nth: "prolong_csr_col_ind (snd ?res) ! (p + i) = f2c ! (csr_col_ind A ! (kept ! i))"
    if "i < length kept" for i
    by (rule c(5) [OF that]) (use that room in simp)
  have "row_slice p (p + length kept) (prolong_csr_col_ind (snd ?res)) =
      map (\<lambda>i. prolong_csr_col_ind (snd ?res) ! (p + i)) [0..<length kept]"
    by (rule row_slice_map) (use room c(2) in simp)
  also have "\<dots> = map (\<lambda>j. f2c ! (csr_col_ind A ! j)) kept"
    by (rule nth_equalityI) (simp_all add: nth)
  finally show ?thesis unfolding thr .
qed

lemma f2c_sorted_iff:
  fixes f2c :: "nat list"
  assumes mono: "\<forall>c<n. \<forall>d<n. c < d \<and> cf ! c = 1 \<and> cf ! d = 1 \<longrightarrow> f2c ! c < f2c ! d"
    and cs: "\<forall>c\<in>set cs. c < n \<and> cf ! c = 1"
  shows "sorted_wrt (<) (map (\<lambda>c. f2c ! c) cs) \<longleftrightarrow> sorted_wrt (<) cs"
proof -
  have iff: "f2c ! c < f2c ! d \<longleftrightarrow> c < d" if "c \<in> set cs" "d \<in> set cs" for c d
  proof
    assume l: "f2c ! c < f2c ! d"
    show "c < d"
    proof (rule ccontr)
      assume "\<not> c < d"
      then consider "d = c" | "d < c" by linarith
      then show False
      proof cases
        case 1
        then show False using l by simp
      next
        case 2
        then have "f2c ! d < f2c ! c" using mono cs that by blast
        then show False using l by simp
      qed
    qed
  next
    assume "c < d"
    then show "f2c ! c < f2c ! d" using mono cs that by blast
  qed
  show ?thesis
    unfolding sorted_wrt_map
    by (rule iffI; erule sorted_wrt_mono_rel [rotated]) (simp_all add: iff)
qed

lemma table_count_update:
  assumes "h < length keys" "keys ! h = E" "k \<noteq> E"
  shows "table_count E (keys[h := k]) = table_count E keys + 1"
proof -
  have "{c. c < length (keys[h := k]) \<and> keys[h := k] ! c \<noteq> E} =
      insert h {c. c < length keys \<and> keys ! c \<noteq> E}"
    using assms by (auto simp: nth_list_update)
  moreover have "h \<notin> {c. c < length keys \<and> keys ! c \<noteq> E}" using assms by simp
  ultimately show ?thesis unfolding table_count_card by simp
qed

lemma set_map_insert:
  "unordered_set_insert E hash k (hm_keys m) =
     (fst (unordered_map_insert E hash k m), hm_keys (snd (unordered_map_insert E hash k m)))"
  by (simp add: unordered_set_insert_def unordered_map_insert_def split: option.splits)

lemma map_insert_count:
  "table_count E (hm_keys (snd (unordered_map_insert E hash k m))) =
     table_count E (hm_keys m) + (if fst (unordered_map_insert E hash k m) then 1 else 0)"
proof (cases "k = E")
  case True
  then show ?thesis by (simp add: unordered_map_insert_def)
next
  case ne: False
  show ?thesis
  proof (cases "find_slot E hash k (hm_keys m)")
    case None
    then show ?thesis using ne by (simp add: unordered_map_insert_def)
  next
    case (Some h)
    show ?thesis
    proof (cases "hm_keys m ! h = k")
      case True
      then show ?thesis using ne Some by (simp add: unordered_map_insert_def)
    next
      case False
      have "h < length (hm_keys m)" "hm_keys m ! h = E"
        using find_slot_range [OF Some] False by auto
      from table_count_update [OF this ne]
      show ?thesis using ne Some False by (simp add: unordered_map_insert_def)
    qed
  qed
qed

lemma nnz_inner_pattern:
  "snd (extpi_nnz_inner E hash FF1 A S cf col ls (c, hm_keys m)) =
     hm_keys (extpi_fill_insert_inner E hash FF1 A S cf col ls m) \<and>
   fst (extpi_nnz_inner E hash FF1 A S cf col ls (c, hm_keys m)) + table_count E (hm_keys m) =
     c + table_count E (hm_keys (extpi_fill_insert_inner E hash FF1 A S cf col ls m))"
proof (induction ls arbitrary: c m)
  case Nil
  then show ?case by simp
next
  case (Cons l ls)
  let ?r = "unordered_map_insert E hash (csr_col_ind A ! l) m"
  note ih1 = Cons [of c m]
  note ih2 = Cons [of "c + (if fst ?r then 1 else 0)" "snd ?r"]
  note cnt = map_insert_count [of E hash "csr_col_ind A ! l" m]
  show ?case
    using ih1 ih2 cnt
    by (cases FF1) (simp_all add: Let_def set_map_insert)
qed

lemma nnz_step_pattern:
  "snd (extpi_nnz_step E hash FF1 A S cf row j (c, hm_keys m)) =
     hm_keys (extpi_fill_insert_step E hash FF1 A S cf row j m) \<and>
   fst (extpi_nnz_step E hash FF1 A S cf row j (c, hm_keys m)) + table_count E (hm_keys m) =
     c + table_count E (hm_keys (extpi_fill_insert_step E hash FF1 A S cf row j m))"
  using nnz_inner_pattern [of E hash FF1 A S cf "csr_col_ind A ! j" _ c m]
    map_insert_count [of E hash "csr_col_ind A ! j" m]
  by (simp add: extpi_nnz_step_def extpi_fill_insert_step_def Let_def set_map_insert)

lemma nnz_fold_pattern:
  "snd (fold (extpi_nnz_step E hash FF1 A S cf row) js (c, hm_keys m)) =
     hm_keys (fold (extpi_fill_insert_step E hash FF1 A S cf row) js m) \<and>
   fst (fold (extpi_nnz_step E hash FF1 A S cf row) js (c, hm_keys m)) + table_count E (hm_keys m) =
     c + table_count E (hm_keys (fold (extpi_fill_insert_step E hash FF1 A S cf row) js m))"
proof (induction js arbitrary: c m)
  case Nil
  then show ?case by simp
next
  case (Cons j js)
  obtain c1 t1 where s: "extpi_nnz_step E hash FF1 A S cf row j (c, hm_keys m) = (c1, t1)"
    by (cases "extpi_nnz_step E hash FF1 A S cf row j (c, hm_keys m)")
  let ?m1 = "extpi_fill_insert_step E hash FF1 A S cf row j m"
  have t1: "t1 = hm_keys ?m1" and c1: "c1 + table_count E (hm_keys m) = c + table_count E (hm_keys ?m1)"
    using nnz_step_pattern [of E hash FF1 A S cf row j c m] unfolding s by simp_all
  show ?case unfolding fold_simps s t1 using Cons [of c1 ?m1] c1 by simp
qed

lemma nnz_lanes_pattern:
  "snd (fold (extpi_nnz_lane W E hash FF1 A S cf row) ls (acc, hm_keys m)) =
     hm_keys (fold (\<lambda>lid. fold (extpi_fill_insert_step E hash FF1 A S cf row)
                (lane_indices W lid (csr_row_ptr A ! row) (csr_row_ptr A ! (row + 1)))) ls m) \<and>
   sum_list (fst (fold (extpi_nnz_lane W E hash FF1 A S cf row) ls (acc, hm_keys m))) +
     table_count E (hm_keys m) =
     sum_list acc +
     table_count E (hm_keys (fold (\<lambda>lid. fold (extpi_fill_insert_step E hash FF1 A S cf row)
                (lane_indices W lid (csr_row_ptr A ! row) (csr_row_ptr A ! (row + 1)))) ls m))"
proof (induction ls arbitrary: acc m)
  case Nil
  then show ?case by simp
next
  case (Cons l ls)
  let ?js = "lane_indices W l (csr_row_ptr A ! row) (csr_row_ptr A ! (row + 1))"
  obtain c1 t1 where s: "fold (extpi_nnz_step E hash FF1 A S cf row) ?js (0, hm_keys m) = (c1, t1)"
    by (cases "fold (extpi_nnz_step E hash FF1 A S cf row) ?js (0, hm_keys m)")
  let ?m1 = "fold (extpi_fill_insert_step E hash FF1 A S cf row) ?js m"
  have t1: "t1 = hm_keys ?m1" and c1: "c1 + table_count E (hm_keys m) = table_count E (hm_keys ?m1)"
    using nnz_fold_pattern [of E hash FF1 A S cf row ?js 0 m] unfolding s by simp_all
  have step: "extpi_nnz_lane W E hash FF1 A S cf row l (acc, hm_keys m) = (acc @ [c1], hm_keys ?m1)"
    unfolding extpi_nnz_lane_def prod.case s t1 ..
  show ?case unfolding fold_simps step using Cons [of "acc @ [c1]" ?m1] c1 by simp
qed

lemma extpi_nnz_row_count:
  assumes "cf ! row \<noteq> 1"
  shows "extpi_nnz_row W H E hash FF1 A S cf row =
     table_count E (hm_keys (extpi_fill_pattern W H E hash FF1 A S cf row))"
proof -
  have e: "empty_set E H = hm_keys (empty_map E H)" by (simp add: empty_set_def empty_map_def)
  have z: "table_count E (hm_keys (empty_map E H)) = 0"
    by (simp add: table_count_def empty_map_def)
  show ?thesis
    using nnz_lanes_pattern [of W E hash FF1 A S cf row "[0..<W]" "[]" "empty_map E H"] assms
    unfolding extpi_nnz_row_def extpi_fill_pattern_def e z wf_reduce_sum_def by simp
qed

lemma write_step_outside:
  assumes "length (hm_keys m) = H" "y < H" "list_all (\<lambda>k. k \<le> E) (hm_keys m)"
    and "p < aj \<or> aj + table_count E (hm_keys m) \<le> p"
  shows "prolong_csr_col_ind (extpi_fill_write_step E H m f2c aj a y P) ! p = prolong_csr_col_ind P ! p"
proof (cases "hm_keys m ! y = E")
  case True
  then show ?thesis by (simp add: write_step_col [OF assms(1)])
next
  case False
  have "hm_keys m ! y \<le> E" using assms(1,2,3) by (simp add: list_all_length)
  then have "hm_keys m ! y < E" using False by simp
  then have "table_rank (hm_keys m) (hm_keys m ! y) < table_count E (hm_keys m)"
    using table_rank_count assms(1,2) by simp
  then have "aj + table_rank (hm_keys m) (hm_keys m ! y) \<noteq> p" using assms(4) by auto
  then show ?thesis using False by (simp add: write_step_col [OF assms(1)])
qed

lemma write_loop_outside:
  fixes a :: "nat \<Rightarrow> real"
  assumes "length (hm_keys m) = H" "list_all (\<lambda>k. k \<le> E) (hm_keys m)"
    and "p < aj \<or> aj + table_count E (hm_keys m) \<le> p"
  shows "prolong_csr_col_ind
           (fold (\<lambda>lid. fold (extpi_fill_write_step E H m f2c aj (a lid)) (lane_indices W lid 0 H))
              ls P) ! p = prolong_csr_col_ind P ! p"
proof (rule fold_inv [where P = "\<lambda>t. prolong_csr_col_ind t ! p = prolong_csr_col_ind P ! p"])
  show "prolong_csr_col_ind P ! p = prolong_csr_col_ind P ! p" ..
next
  fix y and t :: prolong
  assume t: "prolong_csr_col_ind t ! p = prolong_csr_col_ind P ! p"
  show "prolong_csr_col_ind (fold (extpi_fill_write_step E H m f2c aj (a y)) (lane_indices W y 0 H) t) ! p =
      prolong_csr_col_ind P ! p"
  proof (rule fold_inv [where P = "\<lambda>u. prolong_csr_col_ind u ! p = prolong_csr_col_ind P ! p"])
    show "prolong_csr_col_ind t ! p = prolong_csr_col_ind P ! p" by (rule t)
  next
    fix x and u :: prolong
    assume x: "x \<in> set (lane_indices W y 0 H)"
      and u: "prolong_csr_col_ind u ! p = prolong_csr_col_ind P ! p"
    have "x < H" using lane_indices_bounds [OF x] by simp
    from write_step_outside [OF assms(1) this assms(2,3)]
    show "prolong_csr_col_ind (extpi_fill_write_step E H m f2c aj (a y) x u) ! p =
        prolong_csr_col_ind P ! p"
      using u by simp
  qed
qed

lemma us_classified:
  "kernel_csr_rs_pmis_strong_influences 2 3 us_A (1/4) (\<lambda>_. False) us_ss =
     \<lparr>ss_omega = us_omega, ss_S = us_S\<rparr>"
  by code_simp

lemma us_coarsened:
  "pmis_loop 2 3 us_A us_omega us_S start3 =
     Some \<lparr>pm_cf = us_cf, pm_workspace = [False, True, True], pm_undecided = False\<rparr>"
proof -
  have r: "pmis_round 2 3 us_A us_omega us_S start3 =
     \<lparr>pm_cf = us_cf, pm_workspace = [False, True, True], pm_undecided = False\<rparr>"
    by code_simp
  show ?thesis
    by (subst pmis_loop.simps) (simp only: r Let_def pmis_state.simps if_False)
qed

lemma us_counted:
  "kernel_csr_rs_direct_interp_nnz 3 us_A us_S us_cf us_count0 =
     \<lparr>ic_Amin = us_Amin, ic_Amax = us_Amax, ic_row_nnz = [2, 1, 1], ic_f2c = [0, 1, 1]\<rparr>"
  by code_simp

lemma us_filled:
  "prolong_csr_col_ind
     (kernel_csr_rs_direct_interp_fill (\<lambda>q. q) 3 us_A us_row_ptr us_S us_cf us_Amin us_Amax us_f2c us_P0) =
     [1, 0, 0, 1]"
  by code_simp

lemma us_wf: "csr_wf us_A"
  by code_simp

lemma us_mono:
  "\<forall>c<nrow us_A. \<forall>d<nrow us_A. c < d \<and> us_cf ! c = 1 \<and> us_cf ! d = 1 \<longrightarrow> us_f2c ! c < us_f2c ! d"
  by (auto simp: us_A_def us_cf_def us_f2c_def less_Suc_eq numeral_3_eq_3)

lemma extpi_row_outside:
  fixes f2c csr_row_ptr_P :: "nat list" and P :: prolong and diag :: "real list"
  assumes "csr_wf A" "nrow A \<le> E" "row < nrow A" "cf ! row \<noteq> 1"
    and "p < csr_row_ptr_P ! row \<or>
         csr_row_ptr_P ! row + table_count E (hm_keys (extpi_fill_pattern W H E hash FF1 A S cf row)) \<le> p"
  shows "prolong_csr_col_ind
           (extpi_fill_wavefront W H E hash FF1 A diag csr_row_ptr_P S cf f2c row P) ! p =
         prolong_csr_col_ind P ! p"
proof -
  obtain den m where nm: "extpi_fill_numeric W H E hash FF1 A diag S cf row = (den, m)"
    by (cases "extpi_fill_numeric W H E hash FF1 A diag S cf row")
  have mk: "hm_keys m = hm_keys (extpi_fill_pattern W H E hash FF1 A S cf row)"
    using numeric_keys [of W H E hash FF1 A diag S cf row] unfolding nm by simp
  have ok: "map_ok E hash H (nrow A) cf (extpi_fill_pattern W H E hash FF1 A S cf row)"
    by (rule pattern_ok [OF assms(1,3)])
  have len: "length (hm_keys m) = H" using ok by (simp add: map_ok_def mk)
  have le: "list_all (\<lambda>k. k \<le> E) (hm_keys m)"
    using ok assms(2) unfolding mk map_ok_def by (auto simp: list_all_iff)
  have wf: "extpi_fill_wavefront W H E hash FF1 A diag csr_row_ptr_P S cf f2c row P =
      fold (\<lambda>lid. fold (extpi_fill_write_step E H m f2c (csr_row_ptr_P ! row) (- 1 / (den ! lid)))
        (lane_indices W lid 0 H)) [0..<W] P"
    using assms(3,4) by (simp add: extpi_fill_wavefront_def nm Let_def)
  show ?thesis unfolding wf
    by (rule write_loop_outside [OF len le]) (use assms(5) in \<open>simp add: mk\<close>)
qed

text \<open>
  C6, as stated, fails for the direct fill kernel. For the matrix \<open>us_A\<close>, classified,
  coarsened and counted as above, row 0 is Fine and its two strongly connected Coarse
  columns are stored as 2, 1: the kernel writes them in this order, so that row 0 of P
  has the columns 1, 0 (the index type holds every place of P here, the conversion to it
  is the identity).
\<close>

theorem direct_fill_unsorted_counterexample:
  "kernel_csr_rs_pmis_strong_influences 2 3 us_A (1/4) (\<lambda>_. False) us_ss =
     \<lparr>ss_omega = us_omega, ss_S = us_S\<rparr> \<and>
   pmis_loop 2 3 us_A us_omega us_S start3 =
     Some \<lparr>pm_cf = us_cf, pm_workspace = [False, True, True], pm_undecided = False\<rparr> \<and>
   kernel_csr_rs_direct_interp_nnz 3 us_A us_S us_cf us_count0 =
     \<lparr>ic_Amin = us_Amin, ic_Amax = us_Amax, ic_row_nnz = [2, 1, 1], ic_f2c = [0, 1, 1]\<rparr> \<and>
   prolong_csr_col_ind
     (kernel_csr_rs_direct_interp_fill (\<lambda>q. q) 3 us_A us_row_ptr us_S us_cf us_Amin us_Amax us_f2c us_P0) =
     [1, 0, 0, 1] \<and>
   row_slice (us_row_ptr ! 0) (us_row_ptr ! 1)
     (prolong_csr_col_ind
        (kernel_csr_rs_direct_interp_fill (\<lambda>q. q) 3 us_A us_row_ptr us_S us_cf us_Amin us_Amax us_f2c us_P0)) =
     [1, 0] \<and>
   \<not> sorted_wrt (<)
     (row_slice (us_row_ptr ! 0) (us_row_ptr ! 1)
        (prolong_csr_col_ind
           (kernel_csr_rs_direct_interp_fill (\<lambda>q. q) 3 us_A us_row_ptr us_S us_cf us_Amin us_Amax us_f2c us_P0)))"
proof -
  have s: "row_slice (us_row_ptr ! 0) (us_row_ptr ! 1)
     (prolong_csr_col_ind
        (kernel_csr_rs_direct_interp_fill (\<lambda>q. q) 3 us_A us_row_ptr us_S us_cf us_Amin us_Amax us_f2c us_P0)) =
     [1, 0]"
    unfolding us_filled by (simp add: row_slice_def us_row_ptr_def)
  have n: "\<not> sorted_wrt (<)
     (row_slice (us_row_ptr ! 0) (us_row_ptr ! 1)
        (prolong_csr_col_ind
           (kernel_csr_rs_direct_interp_fill (\<lambda>q. q) 3 us_A us_row_ptr us_S us_cf us_Amin us_Amax us_f2c us_P0)))"
    unfolding s by simp
  show ?thesis by (intro conjI us_classified us_coarsened us_counted us_filled s n)
qed

text \<open>
  C6, amended. Let \<open>f2c\<close> be strictly increasing on the Coarse rows (as the exclusive
  scan of the Coarse flags is), let the matrix be well formed with every row index below
  the empty key of the table, and let the row be one that is not Coarse. The extended+i
  fill kernel writes into the \<open>row_nnz\<close> places that the count kernel stored for the row,
  from the row pointer of P on, and nowhere else, and the columns it leaves there are
  strictly increasing, whatever the order of the input row and the hash function (a key
  for which the table has no free slot is neither stored nor counted). The direct fill
  kernel writes, from the row pointer of P converted to the index type on (the places of
  the row being values of that type), the images under \<open>f2c\<close> of the strongly
  connected Coarse columns that it keeps in the order in which the input row stores them;
  they are strictly increasing if and only if these columns are strictly increasing in
  the input row.
\<close>

theorem prolong_rows_sorted:
  fixes P Pd :: prolong and A :: csr and S :: "bool list" and cf :: "int list"
    and Amin Amax diag :: "real list" and f2c csr_row_ptr_P prolong_csr_row_ptr :: "nat list"
    and HASHSIZE grid :: nat and hash :: "nat \<Rightarrow> nat" and FF :: bool and st :: extpi_count
    and to_I :: "nat \<Rightarrow> nat"
  assumes "0 < WFSIZE" "csr_wf A" "nrow A \<le> EMPTY" "row < nrow A" "cf ! row \<noteq> 1"
    and "\<forall>c<nrow A. \<forall>d<nrow A. c < d \<and> cf ! c = 1 \<and> cf ! d = 1 \<longrightarrow> f2c ! c < f2c ! d"
    and "row < grid" "row < length (ec_row_nnz st)"
  defines "n \<equiv> ec_row_nnz (kernel_csr_rs_extpi_interp_nnz WFSIZE HASHSIZE grid EMPTY hash FF A S cf st) ! row"
  defines "kept \<equiv> filter (\<lambda>j. S ! j \<and> cf ! (csr_col_ind A ! j) = 1 \<and>
                      \<not> (csr_val A ! j > Amin ! row \<and> csr_val A ! j < Amax ! row))
                    [csr_row_ptr A ! row..<csr_row_ptr A ! (row + 1)]"
  defines "Pe \<equiv> extpi_fill_wavefront WFSIZE HASHSIZE EMPTY hash FF A diag csr_row_ptr_P S cf f2c row P"
  defines "pd \<equiv> to_I (prolong_csr_row_ptr ! row)"
  assumes "csr_row_ptr_P ! row + n \<le> length (prolong_csr_col_ind P)"
    and "\<forall>i. 0 < i \<and> i \<le> length kept \<longrightarrow> to_I (pd + i) = pd + i"
    and "pd + length kept \<le> length (prolong_csr_col_ind Pd)"
  shows "sorted_wrt (<)
           (row_slice (csr_row_ptr_P ! row) (csr_row_ptr_P ! row + n) (prolong_csr_col_ind Pe)) \<and>
         (\<forall>p. p < csr_row_ptr_P ! row \<or> csr_row_ptr_P ! row + n \<le> p \<longrightarrow>
              prolong_csr_col_ind Pe ! p = prolong_csr_col_ind P ! p) \<and>
         row_slice pd (pd + length kept)
           (prolong_csr_col_ind
              (direct_interp_fill_thread to_I A prolong_csr_row_ptr S cf Amin Amax f2c row Pd)) =
           map (\<lambda>j. f2c ! (csr_col_ind A ! j)) kept \<and>
         (sorted_wrt (<) (map (\<lambda>j. f2c ! (csr_col_ind A ! j)) kept) \<longleftrightarrow>
          sorted_wrt (<) (map (\<lambda>j. csr_col_ind A ! j) kept))"
proof -
  have keeps: "(\<lambda>j. S ! j \<and> cf ! (csr_col_ind A ! j) = 1 \<and>
                      \<not> (csr_val A ! j > Amin ! row \<and> csr_val A ! j < Amax ! row)) =
      direct_keeps A S cf (Amin ! row) (Amax ! row)"
    by (rule ext) (auto simp: direct_keeps_def)
  have n: "n = table_count EMPTY (hm_keys (extpi_fill_pattern WFSIZE HASHSIZE EMPTY hash FF A S cf row))"
    unfolding n_def kernel_extpi_nnz_row [OF assms(4,7,8)] by (rule extpi_nnz_row_count [OF assms(5)])
  have 1: "sorted_wrt (<)
           (row_slice (csr_row_ptr_P ! row) (csr_row_ptr_P ! row + n) (prolong_csr_col_ind Pe))"
    unfolding n Pe_def
    by (rule extpi_row_sorted [OF assms(1-6) assms(13) [unfolded n]])
  have 2: "\<forall>p. p < csr_row_ptr_P ! row \<or> csr_row_ptr_P ! row + n \<le> p \<longrightarrow>
              prolong_csr_col_ind Pe ! p = prolong_csr_col_ind P ! p"
    unfolding n Pe_def using extpi_row_outside [OF assms(2-5)] by blast
  have 3: "row_slice pd (pd + length kept)
           (prolong_csr_col_ind
              (direct_interp_fill_thread to_I A prolong_csr_row_ptr S cf Amin Amax f2c row Pd)) =
           map (\<lambda>j. f2c ! (csr_col_ind A ! j)) kept"
    unfolding kept_def keeps pd_def
    by (rule direct_row_cols [OF assms(4,5) assms(14) [unfolded kept_def keeps pd_def]
          assms(15) [unfolded kept_def keeps pd_def]])
  have cs: "\<forall>c\<in>set (map (\<lambda>j. csr_col_ind A ! j) kept). c < nrow A \<and> cf ! c = 1"
  proof -
    have "csr_col_ind A ! j < nrow A \<and> cf ! (csr_col_ind A ! j) = 1" if "j \<in> set kept" for j
    proof -
      have "j < csr_row_ptr A ! (row + 1)" and c: "cf ! (csr_col_ind A ! j) = 1"
        using that by (simp_all add: kept_def)
      then have "j < length (csr_col_ind A)" using csr_wf_row(2) [OF assms(2,4)] by simp
      then show ?thesis using csr_wf_col [OF assms(2)] c by simp
    qed
    then show ?thesis by simp
  qed
  have "sorted_wrt (<) (map (\<lambda>c. f2c ! c) (map (\<lambda>j. csr_col_ind A ! j) kept)) \<longleftrightarrow>
      sorted_wrt (<) (map (\<lambda>j. csr_col_ind A ! j) kept)"
    by (rule f2c_sorted_iff [OF assms(6) cs])
  then have 4: "sorted_wrt (<) (map (\<lambda>j. f2c ! (csr_col_ind A ! j)) kept) \<longleftrightarrow>
          sorted_wrt (<) (map (\<lambda>j. csr_col_ind A ! j) kept)"
    by (simp add: comp_def)
  show ?thesis using 1 2 3 4 by (intro conjI)
qed

theorem prolong_rows_sorted_witness:
  "(0::nat) < 2 \<and> csr_wf us_A \<and> nrow us_A \<le> 100 \<and> 0 < nrow us_A \<and> us_cf ! 0 \<noteq> 1 \<and>
   (0::nat) < 3 \<and> 0 < length (ec_row_nnz us_ec) \<and>
   hm_keys (extpi_fill_pattern 2 4 100 (\<lambda>k. 3 - k) False us_A us_S us_cf 0) = [100, 2, 1, 100] \<and>
   ec_row_nnz (kernel_csr_rs_extpi_interp_nnz 2 4 3 100 (\<lambda>k. 3 - k) False us_A us_S us_cf us_ec) ! 0 = 2 \<and>
   row_slice (us_row_ptr ! 0) (us_row_ptr ! 0 + 2)
     (prolong_csr_col_ind
        (extpi_fill_wavefront 2 4 100 (\<lambda>k. 3 - k) False us_A [2, 1, 1] us_row_ptr us_S us_cf us_f2c 0 us_P0)) =
     [0, 1] \<and>
   sorted_wrt (<)
     (row_slice (us_row_ptr ! 0) (us_row_ptr ! 0 + 2)
        (prolong_csr_col_ind
           (extpi_fill_wavefront 2 4 100 (\<lambda>k. 3 - k) False us_A [2, 1, 1] us_row_ptr us_S us_cf us_f2c 0 us_P0))) \<and>
   us_row_ptr ! 0 mod 4294967296 = 0 \<and>
   (0 + 1) mod 4294967296 = (0 + 1::nat) \<and> (0 + 2) mod 4294967296 = (0 + 2::nat) \<and>
   row_slice 0 (0 + 2)
     (prolong_csr_col_ind
        (direct_interp_fill_thread (\<lambda>q. q mod 4294967296) us_A us_row_ptr us_S us_cf us_Amin us_Amax
           us_f2c 0 us_P0)) =
     [1, 0] \<and>
   map (\<lambda>j. csr_col_ind us_A ! j) [1, 2] = [2, 1] \<and>
   \<not> sorted_wrt (<) (map (\<lambda>j. us_f2c ! (csr_col_ind us_A ! j)) [1, 2])"
proof -
  have h: "(0::nat) < 2" "csr_wf us_A" "nrow us_A \<le> 100" "0 < nrow us_A" "us_cf ! 0 \<noteq> 1"
    by (simp_all add: us_wf) (simp_all add: us_A_def us_cf_def)
  have g: "(0::nat) < 3" "0 < length (ec_row_nnz us_ec)" by (simp_all add: us_ec_def)
  have k: "hm_keys (extpi_fill_pattern 2 4 100 (\<lambda>k. 3 - k) False us_A us_S us_cf 0) = [100, 2, 1, 100]"
    by code_simp
  have c: "ec_row_nnz (kernel_csr_rs_extpi_interp_nnz 2 4 3 100 (\<lambda>k. 3 - k) False us_A us_S us_cf us_ec) ! 0 = 2"
    by code_simp
  have kept: "filter (\<lambda>j. us_S ! j \<and> us_cf ! (csr_col_ind us_A ! j) = 1 \<and>
                      \<not> (csr_val us_A ! j > us_Amin ! 0 \<and> csr_val us_A ! j < us_Amax ! 0))
                    [csr_row_ptr us_A ! 0..<csr_row_ptr us_A ! (0 + 1)] = [1, 2]"
    by code_simp
  have p: "us_row_ptr ! 0 mod 4294967296 = 0" by (simp add: us_row_ptr_def)
  have m: "(0 + 1) mod 4294967296 = (0 + 1::nat)" "(0 + 2) mod 4294967296 = (0 + 2::nat)"
    by simp_all
  have r1: "us_row_ptr ! 0 +
      ec_row_nnz (kernel_csr_rs_extpi_interp_nnz 2 4 3 100 (\<lambda>k. 3 - k) False us_A us_S us_cf us_ec) ! 0 \<le>
      length (prolong_csr_col_ind us_P0)"
    unfolding c by (simp add: us_row_ptr_def us_P0_def)
  have w: "\<forall>i. 0 < i \<and> i \<le> length (filter (\<lambda>j. us_S ! j \<and> us_cf ! (csr_col_ind us_A ! j) = 1 \<and>
                      \<not> (csr_val us_A ! j > us_Amin ! 0 \<and> csr_val us_A ! j < us_Amax ! 0))
                    [csr_row_ptr us_A ! 0..<csr_row_ptr us_A ! (0 + 1)]) \<longrightarrow>
      (us_row_ptr ! 0 mod 4294967296 + i) mod 4294967296 = us_row_ptr ! 0 mod 4294967296 + i"
    unfolding kept p by simp
  have r2: "us_row_ptr ! 0 mod 4294967296 +
      length (filter (\<lambda>j. us_S ! j \<and> us_cf ! (csr_col_ind us_A ! j) = 1 \<and>
                      \<not> (csr_val us_A ! j > us_Amin ! 0 \<and> csr_val us_A ! j < us_Amax ! 0))
                    [csr_row_ptr us_A ! 0..<csr_row_ptr us_A ! (0 + 1)]) \<le>
      length (prolong_csr_col_ind us_P0)"
    unfolding kept p by (simp add: us_P0_def)
  note t = prolong_rows_sorted [OF h us_mono g r1 w r2, where diag = "[2, 1, 1]",
      unfolded c kept p]
  have e: "row_slice (us_row_ptr ! 0) (us_row_ptr ! 0 + 2)
     (prolong_csr_col_ind
        (extpi_fill_wavefront 2 4 100 (\<lambda>k. 3 - k) False us_A [2, 1, 1] us_row_ptr us_S us_cf us_f2c 0 us_P0)) =
     [0, 1]"
    by code_simp
  have v: "map (\<lambda>j. us_f2c ! (csr_col_ind us_A ! j)) [1, 2] = [1, 0]"
    "map (\<lambda>j. csr_col_ind us_A ! j) [1, 2] = [2, 1]"
    by (simp_all add: us_f2c_def us_A_def)
  have d: "row_slice 0 (0 + 2)
     (prolong_csr_col_ind
        (direct_interp_fill_thread (\<lambda>q. q mod 4294967296) us_A us_row_ptr us_S us_cf us_Amin us_Amax
           us_f2c 0 us_P0)) =
     [1, 0]"
    using t [THEN conjunct2, THEN conjunct2, THEN conjunct1] unfolding v by simp
  have ns: "\<not> sorted_wrt (<) (map (\<lambda>j. us_f2c ! (csr_col_ind us_A ! j)) [1, 2])"
    using t [THEN conjunct2, THEN conjunct2, THEN conjunct2] unfolding v(2) by simp
  show ?thesis by (intro conjI h g k c e t [THEN conjunct1] p m d v(2) ns)
qed

end
